theory Spec2Isabelle
  imports Main "HOL-Library.Word"
begin

unbundle bit_operations_syntax

section \<open>The irrigation controller sketch (irrigationESP32.ino)\<close>

text \<open>
  A shallow embedding of the scheduling and persistence code of the sketch: the EEPROM
  layout, the Fletcher-style checksum, \<open>setup()\<close>, the run-mode part of \<open>loop()\<close>,
  the four button handlers and \<open>start_runmode()\<close> / \<open>stop_runmode()\<close>.
  The display and shift-register drivers are left out; of the outputs only the
  \<open>relays\<close> register is kept.
\<close>

subsection \<open>Machine types and the EEPROM\<close>

type_synonym u8 = "8 word"
type_synonym u32 = "32 word"

text \<open>
  The EEPROM object is a byte store indexed by address. \<open>EEPROM.read\<close> is function
  application, \<open>EEPROM.write\<close> is a function update, \<open>EEPROM.commit()\<close> does not
  change what a read returns and is the identity here. All addresses the sketch forms
  from the cursor ranges it uses are below the size 512 passed to \<open>EEPROM.begin\<close>.
\<close>

type_synonym eeprom = "nat \<Rightarrow> u8"

abbreviation CK1 :: nat where "CK1 \<equiv> 96"
abbreviation CK2 :: nat where "CK2 \<equiv> 97"
abbreviation LAST_PROG :: nat where "LAST_PROG \<equiv> 102"
abbreviation STATUS :: nat where "STATUS \<equiv> 103"
abbreviation LAST_TIME_INDEX :: nat where "LAST_TIME_INDEX \<equiv> 104"
abbreviation LAST_TIME_BASE :: nat where "LAST_TIME_BASE \<equiv> 105"
abbreviation LAST_TIME_SIZE :: nat where "LAST_TIME_SIZE \<equiv> 16"
abbreviation PROGS :: nat where "PROGS \<equiv> 10"
abbreviation MAX_PROG :: nat where "MAX_PROG \<equiv> 5"
abbreviation STATIONS :: nat where "STATIONS \<equiv> 16"
abbreviation EBASE :: nat where "EBASE \<equiv> 180"

text \<open>\<open>uint8_t bws[] = { 1,2,0xd }\<close>: the backwash stations and the delay station.\<close>

definition bws :: "nat list" where
  "bws = [1, 2, 13]"

definition read_eeprom :: "eeprom \<Rightarrow> nat \<Rightarrow> nat \<Rightarrow> u8" where
  "read_eeprom e p s = e (EBASE + p * STATIONS + s)"

definition update_eeprom :: "eeprom \<Rightarrow> nat \<Rightarrow> nat \<Rightarrow> u8 \<Rightarrow> eeprom" where
  "update_eeprom e p s d = e(EBASE + p * STATIONS + s := d)"

subsection \<open>The checksum\<close>

text \<open>
  \<open>sum1\<close> and \<open>sum2\<close> are \<open>uint16_t\<close>. Their operands are promoted to \<open>int\<close>, so
  the sums are exact; the assignment back to \<open>uint16_t\<close> is the reduction modulo
  \<open>2 ^ 16\<close> written out in \<open>to_u16\<close>.
\<close>

definition to_u16 :: "int \<Rightarrow> int" where
  "to_u16 x = x mod 2 ^ 16"

text \<open>The cells in the order of the nested loops \<open>for a < PROGS, for b < STATIONS\<close>.\<close>

definition table_cells :: "(nat \<times> nat) list" where
  "table_cells = List.product [0..<PROGS] [0..<STATIONS]"

definition checksum_step :: "u8 \<Rightarrow> int \<times> int \<Rightarrow> int \<times> int" where
  "checksum_step v acc =
     (let sum1 = to_u16 ((fst acc + uint v) mod 255);
          sum2 = to_u16 ((snd acc + sum1) mod 255)
      in (sum1, sum2))"

definition checksum_sums :: "eeprom \<Rightarrow> int \<times> int" where
  "checksum_sums e =
     fold (\<lambda>c acc. checksum_step (read_eeprom e (fst c) (snd c)) acc) table_cells (456, 0)"

definition checksum :: "eeprom \<Rightarrow> int" where
  "checksum e =
     (let sums = checksum_sums e
      in to_u16 ((push_bit 8 (snd sums) OR fst sums) AND 0x7fff))"

text \<open>
  \<open>EEPROM.write\<close> takes a \<open>uint8_t\<close>: \<open>c & 0xff\<close> and \<open>c >> 8\<close> are converted
  with \<open>word_of_int\<close>, which reduces modulo 256.
\<close>

definition update_checksum :: "eeprom \<Rightarrow> eeprom" where
  "update_checksum e =
     (let c = checksum e;
          e1 = e(CK1 := word_of_int (c AND 0xff))
      in e1(CK2 := word_of_int (drop_bit 8 c)))"

text \<open>The left-hand side of the comparison at the start of \<open>setup()\<close>.\<close>

definition stored_checksum :: "eeprom \<Rightarrow> int" where
  "stored_checksum e = (uint (e CK2) * 256 + uint (e CK1)) AND 0x7fff"

subsection \<open>The controller state\<close>

text \<open>
  The globals of the sketch that the scheduling code reads. Button levels are
  \<open>True\<close> for HIGH. The scratch globals \<open>p\<close>, \<open>s\<close>, \<open>pt\<close> are assigned before
  every use and are locals of the functions below; the display counters are left out.
\<close>

record state =
  eeprom :: eeprom
  run_mode :: bool
  fast_mode :: bool
  b1 :: bool
  b2 :: bool
  b3 :: bool
  b4 :: bool
  b8 :: bool
  prog :: u8
  station :: u8
  duration :: u8
  start_time :: u32
  last_time :: u8
  backwash_delay :: u8
  debounce :: u8
  ct :: u32
  lt :: u32
  bt :: u32
  remaining :: "u32 list"
  st :: "u8 list"
  station_active :: bool
  relays :: u8

text \<open>The globals as their initialisers leave them before \<open>setup()\<close> runs.\<close>

definition power_on :: "eeprom \<Rightarrow> state" where
  "power_on e =
     \<lparr>eeprom = e, run_mode = False, fast_mode = False,
      b1 = False, b2 = False, b3 = False, b4 = False, b8 = False,
      prog = 0, station = 0, duration = 0, start_time = 0, last_time = 0,
      backwash_delay = 0, debounce = 0, ct = 0, lt = 0, bt = 0,
      remaining = replicate STATIONS 0, st = replicate STATIONS 0,
      station_active = False, relays = 0\<rparr>"

definition relays_off :: "state \<Rightarrow> state" where
  "relays_off s = s\<lparr>relays := 0\<rparr>"

definition stop_runmode :: "state \<Rightarrow> state" where
  "stop_runmode s =
     relays_off (s\<lparr>run_mode := False, eeprom := (eeprom s)(STATUS := 0)\<rparr>)"

text \<open>\<open>millis()\<close> is the argument \<open>now\<close>.\<close>

definition start_runmode :: "state \<Rightarrow> u32 \<Rightarrow> state" where
  "start_runmode s now =
     (let e1 = (eeprom s)(STATUS := 1);
          e2 = e1(LAST_PROG := station s);
          i = (word_of_nat ((unat (e2 LAST_TIME_INDEX) + 1) mod LAST_TIME_SIZE) :: u8);
          e3 = e2(LAST_TIME_INDEX := i);
          e4 = e3(LAST_TIME_BASE + unat (e3 LAST_TIME_INDEX) := 0)
      in s\<lparr>run_mode := True, eeprom := e4, start_time := now,
            ct := 0, lt := 9999, bt := 0, last_time := 0, backwash_delay := 1\<rparr>)"

subsection \<open>setup()\<close>

text \<open>The zeroing loop \<open>for p, for s: update_eeprom(p, s, 0)\<close>.\<close>

definition clear_table :: "eeprom \<Rightarrow> eeprom" where
  "clear_table e = fold (\<lambda>c e'. update_eeprom e' (fst c) (snd c) 0) table_cells e"

text \<open>The block run when the stored checksum differs from the computed one.\<close>

definition init_eeprom :: "eeprom \<Rightarrow> eeprom" where
  "init_eeprom e =
     (let e1 = update_checksum (clear_table e);
          e2 = e1(LAST_TIME_INDEX := 0);
          e3 = e2(LAST_TIME_BASE := 0)
      in e3(STATUS := 0))"

definition validate_eeprom :: "eeprom \<Rightarrow> eeprom" where
  "validate_eeprom e = (if stored_checksum e \<noteq> checksum e then init_eeprom e else e)"

text \<open>
  The rest of \<open>setup()\<close>: restoring the run state. \<open>pins\<close> are the four levels read
  from the keypad pins.
\<close>

definition restore_run :: "state \<Rightarrow> u32 \<Rightarrow> bool \<times> bool \<times> bool \<times> bool \<Rightarrow> state" where
  "restore_run s0 now pins =
     (let e = eeprom s0;
          s1 = s0\<lparr>b1 := fst pins, b2 := fst (snd pins), b3 := fst (snd (snd pins)),
                  b4 := snd (snd (snd pins)), b8 := True\<rparr>;
          s2 = s1\<lparr>run_mode := (e STATUS \<noteq> 0), last_time := 0\<rparr>;
          s3 = (if run_mode s2
                then s2\<lparr>last_time := e (LAST_TIME_BASE + unat (e LAST_TIME_INDEX)),
                        start_time := now, station := e LAST_PROG\<rparr>
                else s2);
          s4 = (if last_time s3 > 240 then s3\<lparr>last_time := 0, run_mode := False\<rparr> else s3);
          s5 = s4\<lparr>lt := ucast (last_time s4) * 6\<rparr>;
          s6 = s5\<lparr>bt := lt s5 + 1, backwash_delay := 1, debounce := 0\<rparr>
      in relays_off s6)"

definition setup_boot :: "eeprom \<Rightarrow> u32 \<Rightarrow> bool \<times> bool \<times> bool \<times> bool \<Rightarrow> state" where
  "setup_boot e now pins = restore_run (power_on (validate_eeprom e)) now pins"

subsection \<open>The run-mode part of loop()\<close>

text \<open>
  The station walk of one program: \<open>s = 3; pt = 0; while (pt <= ct && s < STATIONS-3)
  { pt += read_eeprom(p, s) * 6; s++; }\<close>. The product is an \<open>int\<close> of at most
  1530 and is added to the \<open>unsigned int\<close> \<open>pt\<close>.
\<close>

function walk_loop :: "eeprom \<Rightarrow> nat \<Rightarrow> u32 \<Rightarrow> u32 \<Rightarrow> nat \<Rightarrow> u32 \<times> nat" where
  "walk_loop e p c pt s =
     (if pt \<le> c \<and> s < STATIONS - 3
      then walk_loop e p c (pt + ucast (read_eeprom e p s) * 6) (Suc s)
      else (pt, s))"
  by pat_completeness auto
termination
  by (relation "measure (\<lambda>(e, p, c, pt, s). STATIONS - 3 - s)") auto

declare walk_loop.simps [simp del]

text \<open>
  What the walk nominates: after the loop, \<open>if (pt > ct)\<close> station \<open>s-1\<close> is the
  active one of program \<open>p\<close>, with \<open>pt - ct\<close> minutes left.
\<close>

definition active_station :: "eeprom \<Rightarrow> nat \<Rightarrow> u32 \<Rightarrow> (nat \<times> u32) option" where
  "active_station e p c =
     (let r = walk_loop e p c 0 3
      in if fst r > c then Some (snd r - 1, fst r - c) else None)"

text \<open>
  The body of \<open>for (p = 1; p < PROGS-1; p++)\<close> on the arrays \<open>st\<close>, \<open>remaining\<close>
  and the flag \<open>station_active\<close>; \<open>sel\<close> is the global \<open>station\<close>, which in run
  mode holds the program to run.
\<close>

definition check_prog ::
  "eeprom \<Rightarrow> u8 \<Rightarrow> u32 \<Rightarrow> nat \<Rightarrow> u8 list \<times> u32 list \<times> bool \<Rightarrow> u8 list \<times> u32 list \<times> bool" where
  "check_prog e sel c p acc =
     (if sel = 0 \<or> sel = of_nat p
      then (case active_station e p c of
              Some (j, r) \<Rightarrow>
                ((fst acc)[j := 1],
                 (fst (snd acc))[j := max r (fst (snd acc) ! j)],
                 True)
            | None \<Rightarrow> acc)
      else acc)"

definition eval_programs ::
  "eeprom \<Rightarrow> u8 \<Rightarrow> u32 \<Rightarrow> u8 list \<times> u32 list \<times> bool \<Rightarrow> u8 list \<times> u32 list \<times> bool" where
  "eval_programs e sel c acc = fold (check_prog e sel c) [1..<PROGS - 1] acc"

text \<open>
  The first half of the block under \<open>if (lt != ct)\<close>: the checkpoint write, clearing
  the arrays and the loop over the programs.
\<close>

definition eval_tick :: "state \<Rightarrow> state" where
  "eval_tick s =
     (let s1 = s\<lparr>lt := ct s\<rparr>;
          e1 = (eeprom s1)(LAST_TIME_BASE + unat (eeprom s1 LAST_TIME_INDEX) := ucast (lt s1 div 6));
          s2 = s1\<lparr>eeprom := e1, st := replicate STATIONS 0, remaining := replicate STATIONS 0\<rparr>;
          r = eval_programs e1 (station s2) (ct s2) (st s2, remaining s2, station_active s2)
      in s2\<lparr>st := fst r, remaining := fst (snd r), station_active := snd (snd r)\<rparr>)"

text \<open>
  The backwash walk from \<open>pt = bt; s = 0\<close>: stations 1 and 2 count tenths of a
  minute, station 13 counts 6-minute units.
\<close>

function bw_loop :: "eeprom \<Rightarrow> u32 \<Rightarrow> u32 \<Rightarrow> nat \<Rightarrow> u32 \<times> nat" where
  "bw_loop e c pt s =
     (if pt \<le> c \<and> s < 3
      then bw_loop e c
             (if s < 2 then pt + ucast (read_eeprom e (PROGS - 1) (bws ! s)) div 10
              else pt + ucast (read_eeprom e (PROGS - 1) (bws ! s)) * 6)
             (Suc s)
      else (pt, s))"
  by pat_completeness auto
termination
  by (relation "measure (\<lambda>(e, c, pt, s). 3 - s)") auto

declare bw_loop.simps [simp del]

text \<open>
  After the walk the sketch reads \<open>bws[s-1]\<close>. When the loop body never ran
  (\<open>bt > ct\<close>), \<open>s\<close> is 0 and the read is before the start of the array: the model
  stops with a fault there.
\<close>

datatype fault = BwsIndexOutOfRange

definition backwash :: "state \<Rightarrow> fault + state" where
  "backwash s =
     (if backwash_delay s \<noteq> 0
      then Inr (s\<lparr>bt := ct s + 1, backwash_delay := backwash_delay s - 1\<rparr>)
      else
        (let r = bw_loop (eeprom s) (ct s) (bt s) 0
         in if snd r = 0 then Inl BwsIndexOutOfRange
            else if fst r > ct s
            then Inr (s\<lparr>st := (st s)[bws ! (snd r - 1) := 1],
                        remaining := (remaining s)[bws ! (snd r - 1) := fst r - ct s]\<rparr>)
            else if snd r = 3 then Inr (s\<lparr>bt := ct s + 1\<rparr>)
            else Inr s))"

text \<open>\<open>relays = 1; for (s = 1; s < 8; s++) relays = (relays << 1) | (st[s] & 1)\<close>.\<close>

definition set_relays :: "state \<Rightarrow> state" where
  "set_relays s = s\<lparr>relays := fold (\<lambda>i r. push_bit 1 r OR (st s ! i AND 1)) [1..<8] 1\<rparr>"

definition run_tick :: "state \<Rightarrow> fault + state" where
  "run_tick s =
     (let s3 = eval_tick s
      in if station_active s3
         then (case backwash s3 of Inl f \<Rightarrow> Inl f | Inr s4 \<Rightarrow> Inr (set_relays s4))
         else Inr (stop_runmode s3))"

text \<open>
  The start of the run-mode block: the flag is cleared, \<open>ct\<close> is computed from
  \<open>millis()\<close> in 60 s (fast mode: 5 s) units, and the 24-hour ceiling is applied.
\<close>

definition elapsed :: "state \<Rightarrow> u32 \<Rightarrow> u32" where
  "elapsed s now =
     (now - start_time s) div (if fast_mode s then 5000 else 60000) + ucast (last_time s) * 6"

definition begin_run :: "state \<Rightarrow> u32 \<Rightarrow> state" where
  "begin_run s now =
     (let s1 = s\<lparr>station_active := False\<rparr>;
          s2 = s1\<lparr>ct := elapsed s1 now\<rparr>
      in if ct s2 > 24 * 60 then (stop_runmode s2)\<lparr>lt := ct s2\<rparr> else s2)"

definition run_section :: "state \<Rightarrow> u32 \<Rightarrow> fault + state" where
  "run_section s now =
     (if run_mode s
      then (let s3 = begin_run s now in if lt s3 \<noteq> ct s3 then run_tick s3 else Inr s3)
      else Inr s)"

subsection \<open>The buttons\<close>

definition button8 :: "state \<Rightarrow> u32 \<Rightarrow> state" where
  "button8 s now =
     (let s1 = s\<lparr>debounce := 32, fast_mode := \<not> fast_mode s\<rparr>
      in if run_mode s1 then s1\<lparr>last_time := ucast (ct s1 div 6), start_time := now\<rparr> else s1)"

definition button1 :: "state \<Rightarrow> state" where
  "button1 s =
     (let s1 = s\<lparr>debounce := 32\<rparr>;
          s2 = (if prog s1 = 0 then stop_runmode s1
                else s1\<lparr>eeprom := update_eeprom (eeprom s1) (unat (prog s1))
                                      (unat (station s1)) (duration s1)\<rparr>);
          s3 = s2\<lparr>station := 3\<rparr>;
          s4 = (if prog s3 \<noteq> 0 then s3\<lparr>eeprom := update_checksum (eeprom s3)\<rparr> else s3);
          s5 = s4\<lparr>prog := prog s4 + 1\<rparr>;
          s6 = (if prog s5 > 9 then s5\<lparr>prog := 0\<rparr> else s5);
          s7 = (if prog s6 > 5 then s6\<lparr>prog := 9, station := 1\<rparr> else s6)
      in if prog s7 = 0 then s7\<lparr>station := 0, duration := 0\<rparr>
         else s7\<lparr>duration := read_eeprom (eeprom s7) (unat (prog s7)) (unat (station s7))\<rparr>)"

definition button2 :: "state \<Rightarrow> state" where
  "button2 s =
     (let s1 = s\<lparr>debounce := 32\<rparr>
      in if prog s1 \<noteq> 0
         then (let s2 = s1\<lparr>eeprom := update_eeprom (eeprom s1) (unat (prog s1))
                                          (unat (station s1)) (duration s1)\<rparr>;
                   s3 = s2\<lparr>station := station s2 + 1\<rparr>;
                   s4 = (if station s3 \<ge> 13 then s3\<lparr>station := 1\<rparr> else s3);
                   s5 = (if prog s4 = 9 \<and> station s4 \<ge> 3 then s4\<lparr>station := 0xd\<rparr> else s4);
                   s6 = (if prog s5 \<noteq> 9
                         then (let s' = (if station s5 < 3 then s5\<lparr>station := 3\<rparr> else s5)
                               in if station s' > 7 then s'\<lparr>station := 3\<rparr> else s')
                         else s5)
               in s6\<lparr>duration := read_eeprom (eeprom s6) (unat (prog s6)) (unat (station s6))\<rparr>)
         else if \<not> run_mode s1
         then (let s2 = s1\<lparr>station := station s1 + 1\<rparr>
               in if station s2 > 5 then s2\<lparr>station := 0\<rparr> else s2)
         else s1)"

definition button3 :: "state \<Rightarrow> u32 \<Rightarrow> state" where
  "button3 s now =
     (let s1 = s\<lparr>debounce := 32\<rparr>
      in if prog s1 = 0 \<and> \<not> run_mode s1 then start_runmode s1 now
         else if prog s1 \<noteq> 0
         then (let s2 = s1\<lparr>duration := (duration s1 div 5 + 1) * 5\<rparr>;
                   s3 = (if prog s2 = 9 \<and> station s2 < 3
                         then s2\<lparr>duration := duration s2 + 5\<rparr> else s2)
               in if duration s3 > 80 then s3\<lparr>duration := 0\<rparr> else s3)
         else s1)"

definition button4 :: "state \<Rightarrow> state" where
  "button4 s =
     (let s1 = s\<lparr>debounce := 32\<rparr>;
          s2 = (if prog s1 \<noteq> 0 \<and> \<not> run_mode s1 then s1\<lparr>duration := 0\<rparr> else s1)
      in if run_mode s2 then stop_runmode s2 else s2)"

text \<open>
  One pass of \<open>loop()\<close> reads \<open>millis()\<close> and the five button levels (\<open>True\<close> is
  HIGH, a press is the edge from HIGH to LOW).
\<close>

record inputs =
  millis :: u32
  b1new :: bool
  b2new :: bool
  b3new :: bool
  b4new :: bool
  b8new :: bool

definition buttons_section :: "state \<Rightarrow> inputs \<Rightarrow> state" where
  "buttons_section s i =
     (if debounce s \<noteq> 0 then s\<lparr>debounce := debounce s - 1\<rparr>
      else
        (let s8 = (if b8 s \<and> \<not> b8new i then button8 s (millis i) else s)\<lparr>b8 := b8new i\<rparr>;
             s1 = (if b1 s8 \<and> \<not> b1new i then button1 s8 else s8)\<lparr>b1 := b1new i\<rparr>;
             s2 = (if b2 s1 \<and> \<not> b2new i then button2 s1 else s1)\<lparr>b2 := b2new i\<rparr>;
             s3 = (if b3 s2 \<and> \<not> b3new i then button3 s2 (millis i) else s2)\<lparr>b3 := b3new i\<rparr>
         in (if b4 s3 \<and> \<not> b4new i then button4 s3 else s3)\<lparr>b4 := b4new i\<rparr>))"

definition loop :: "state \<Rightarrow> inputs \<Rightarrow> fault + state" where
  "loop s i =
     (case run_section s (millis i) of
        Inl f \<Rightarrow> Inl f
      | Inr s' \<Rightarrow> Inr (buttons_section s' i))"

text \<open>
  The states the sketch can be in between two statements of the button block: after
  \<open>setup()\<close> on any EEPROM contents, after the run-mode block, after a debounce
  count-down and after any single button handler.
\<close>

inductive reachable :: "state \<Rightarrow> bool" where
  boot: "reachable (setup_boot e now pins)"
| run: "reachable s \<Longrightarrow> run_section s now = Inr s' \<Longrightarrow> reachable s'"
| wait: "reachable s \<Longrightarrow> reachable (s\<lparr>debounce := d\<rparr>)"
| level: "reachable s \<Longrightarrow>
          reachable (s\<lparr>b1 := la, b2 := lb, b3 := lc, b4 := ld, b8 := lh\<rparr>)"
| press8: "reachable s \<Longrightarrow> reachable (button8 s now)"
| press1: "reachable s \<Longrightarrow> reachable (button1 s)"
| press2: "reachable s \<Longrightarrow> reachable (button2 s)"
| press3: "reachable s \<Longrightarrow> reachable (button3 s now)"
| press4: "reachable s \<Longrightarrow> reachable (button4 s)"

subsection \<open>Notions used to state the properties\<close>

text \<open>
  The minutes program \<open>p\<close> has accumulated once the walk has added stations 3 up to
  and including \<open>k\<close>, as a natural number.
\<close>

definition cumulative :: "eeprom \<Rightarrow> nat \<Rightarrow> nat \<Rightarrow> nat" where
  "cumulative e p k = (\<Sum>i = 3..<Suc k. unat (read_eeprom e p i) * 6)"

text \<open>
  Station \<open>j\<close> is switched on in the arrays with at least \<open>r\<close> minutes left, and
  the activity flag is set.
\<close>

definition marked :: "nat \<Rightarrow> u32 \<Rightarrow> u8 list \<times> u32 list \<times> bool \<Rightarrow> bool" where
  "marked j r acc =
     (j < length (fst acc) \<and> j < length (fst (snd acc)) \<and> fst acc ! j = 1
      \<and> r \<le> fst (snd acc) ! j \<and> snd (snd acc))"

subsection \<open>Concrete EEPROM contents and states\<close>

text \<open>A zeroed table with its checksum bytes (checksum 7881, bytes 201 and 30).\<close>

definition c3_eeprom :: eeprom where
  "c3_eeprom = (\<lambda>a. 0)(CK1 := 201, CK2 := 30)"

text \<open>All four keypad pins read HIGH (no button held during \<open>setup()\<close>).\<close>

definition all_high :: "bool \<times> bool \<times> bool \<times> bool" where
  "all_high = (True, True, True, True)"

text \<open>Station 3 of program 1 holds 80 and the checksum bytes are those of this table.\<close>

definition c3_valid :: eeprom where
  "c3_valid = update_checksum ((\<lambda>a. 0)(199 := 80))"

text \<open>Run state on, wear-levelling index 2, live slot 107 holding 241.\<close>

definition c5_eeprom :: eeprom where
  "c5_eeprom = (\<lambda>a. 0)(CK1 := 201, CK2 := 30, STATUS := 1, LAST_TIME_INDEX := 2, 107 := 241)"

text \<open>
  Program 1 with stations 3 to 7 at 80 counts each (480 minutes per station), a valid
  checksum, run state on for program 1 and a checkpoint of 239 in slot 0.
\<close>

definition c2_eeprom :: eeprom where
  "c2_eeprom =
     (update_checksum ((\<lambda>a. 0)(199 := 80, 200 := 80, 201 := 80, 202 := 80, 203 := 80)))
       (LAST_PROG := 1, STATUS := 1, LAST_TIME_INDEX := 0, LAST_TIME_BASE := 239)"

text \<open>The controller after booting from these contents.\<close>

definition c2_state :: state where
  "c2_state = setup_boot c2_eeprom 0 all_high"

text \<open>A zeroed table with a valid checksum, run state on, a checkpoint of 240 in slot 2.\<close>

definition c10_eeprom :: eeprom where
  "c10_eeprom = (\<lambda>a. 0)(CK1 := 201, CK2 := 30, STATUS := 1, LAST_TIME_INDEX := 2, 107 := 240)"

text \<open>
  Program 1 has 10 counts (60 minutes) on station 3 and nothing else; program 1 is
  selected and 59 minutes have elapsed.
\<close>

definition c1_state :: state where
  "c1_state = (power_on ((\<lambda>a. 0)(199 := 10)))\<lparr>run_mode := True, station := 1, ct := 59\<rparr>"

text \<open>
  The live log slot after each of a series of consecutive \<open>start_runmode()\<close> calls,
  one call per element of the list of \<open>millis()\<close> readings.
\<close>

fun visited_slots :: "state \<Rightarrow> u32 list \<Rightarrow> nat list" where
  "visited_slots s [] = []"
| "visited_slots s (t # ts) =
     unat (eeprom (start_runmode s t) LAST_TIME_INDEX) # visited_slots (start_runmode s t) ts"

text \<open>
  Station 3 of program 1 holds 10, the checksum is valid, the run state is on for
  program 1, and the wear-levelling index byte holds 94, so that the live slot
  \<open>LAST_TIME_BASE + 94\<close> is the table cell of program 1, station 3.
\<close>

definition c9_eeprom :: eeprom where
  "c9_eeprom =
     (update_checksum ((\<lambda>a. 0)(199 := 10)))(LAST_PROG := 1, STATUS := 1, LAST_TIME_INDEX := 94)"

text \<open>The controller after booting from these contents, and after the tick six minutes later.\<close>

definition c9_boot :: state where
  "c9_boot = setup_boot c9_eeprom 0 all_high"

definition c9_state :: state where
  "c9_state = (case run_section c9_boot 360000 of Inr s \<Rightarrow> s | Inl f \<Rightarrow> c9_boot)"

text \<open>An operator editing station 3 of program 1, with 25 counts entered.\<close>

definition c9_edit :: state where
  "c9_edit = (power_on (\<lambda>a. 0))\<lparr>prog := 1, station := 3, duration := 25\<rparr>"

text \<open>While running, the program cursor is 0.\<close>

definition edit_locked :: "state \<Rightarrow> bool" where
  "edit_locked s = (run_mode s \<longrightarrow> prog s = 0)"

text \<open>
  The controller booted from \<open>c2_eeprom\<close> after the tick one minute later
  (\<open>ct = 1435\<close>), and then after the fast-mode button, which rebases the elapsed time
  to \<open>239 * 6 = 1434\<close>.
\<close>

definition c6_first :: state where
  "c6_first = (case run_section c2_state 60000 of Inr s \<Rightarrow> s | Inl f \<Rightarrow> c2_state)"

definition c6_toggled :: state where
  "c6_toggled = button8 c6_first 60000"

section \<open>Properties\<close>

subsection \<open>The checksum\<close>

lemma cell_addrs: "map (\<lambda>c. EBASE + fst c * STATIONS + snd c) table_cells = [180..<340]"
  unfolding table_cells_def by code_simp

lemma to_u16_mod255: "to_u16 (x mod 255) = x mod 255"
proof -
  have "0 \<le> x mod 255" "x mod 255 < 255" by simp_all
  then show ?thesis unfolding to_u16_def by simp
qed

lemma checksum_step_simp:
  "checksum_step v (a, b) = ((a + uint v) mod 255, (b + (a + uint v) mod 255) mod 255)"
  by (simp add: checksum_step_def Let_def to_u16_mod255)

lemma checksum_sums_addrs:
  "checksum_sums e = fold checksum_step (map e [180..<340]) (456, 0)"
proof -
  have "checksum_sums e = fold checksum_step (map e (map (\<lambda>c. EBASE + fst c * STATIONS + snd c) table_cells)) (456, 0)"
    unfolding checksum_sums_def read_eeprom_def by (simp add: fold_map comp_def)
  then show ?thesis by (simp only: cell_addrs)
qed

lemma fold_step_fst:
  "vs \<noteq> [] \<Longrightarrow> fst (fold checksum_step vs (a, b)) = (a + sum_list (map uint vs)) mod 255"
proof (induction vs arbitrary: a b)
  case Nil then show ?case by simp
next
  case (Cons v vs)
  show ?case
  proof (cases "vs = []")
    case True then show ?thesis by (simp add: checksum_step_simp)
  next
    case False
    from Cons.IH[OF False] show ?thesis
      by (simp add: checksum_step_simp mod_add_left_eq add.assoc)
  qed
qed

lemma fold_step_snd_range:
  "vs \<noteq> [] \<Longrightarrow> 0 \<le> snd (fold checksum_step vs (a, b)) \<and> snd (fold checksum_step vs (a, b)) < 255"
proof (induction vs arbitrary: a b)
  case Nil then show ?case by simp
next
  case (Cons v vs)
  show ?case
  proof (cases "vs = []")
    case True then show ?thesis by (simp add: checksum_step_simp)
  next
    case False
    from Cons.IH[OF False] show ?thesis
      by (simp add: checksum_step_simp)
  qed
qed

lemma checksum_sums_range:
  "0 \<le> fst (checksum_sums e) \<and> fst (checksum_sums e) < 255 \<and>
   0 \<le> snd (checksum_sums e) \<and> snd (checksum_sums e) < 255"
proof -
  have ne: "map e [180..<340] \<noteq> []" by (simp del: upt_rec_numeral)
  show ?thesis
    unfolding checksum_sums_addrs
    using fold_step_fst[OF ne, of 456 0] fold_step_snd_range[OF ne, of 456 0]
    by (simp del: upt_rec_numeral)
qed

lemma pack_low_byte:
  fixes a b :: int
  assumes "0 \<le> a" "a < 256" "0 \<le> b"
  shows "take_bit 8 ((push_bit 8 b OR a) AND 0x7fff) = a"
proof -
  have m: "(0x7fff :: int) = mask 15" by (simp add: mask_eq_exp_minus_1)
  have "take_bit 8 ((push_bit 8 b OR a) AND mask 15) = take_bit 8 (push_bit 8 b OR a)"
    by (simp add: take_bit_eq_mask[symmetric] )
  also have "\<dots> = take_bit 8 a" by (simp add: take_bit_or take_bit_push_bit)
  also have "\<dots> = a" using assms by (simp add: take_bit_int_eq_self)
  finally show ?thesis by (simp only: m)
qed

lemma pack_range:
  fixes a b :: int
  shows "0 \<le> (x AND (0x7fff::int)) \<and> (x AND 0x7fff) < 32768"
proof -
  have m: "(0x7fff :: int) = mask 15" by (simp add: mask_eq_exp_minus_1)
  have "x AND mask 15 = take_bit 15 x" by (simp add: take_bit_eq_mask)
  then show ?thesis unfolding m using take_bit_int_less_exp[of 15 x] by simp
qed

lemma checksum_range: "0 \<le> checksum e \<and> checksum e < 32768"
  using pack_range[of "push_bit 8 (snd (checksum_sums e)) OR fst (checksum_sums e)"]
  by (simp add: checksum_def Let_def to_u16_def)

lemma checksum_low: "take_bit 8 (checksum e) = fst (checksum_sums e)"
proof -
  have r: "0 \<le> (push_bit 8 (snd (checksum_sums e)) OR fst (checksum_sums e)) AND 0x7fff"
     "(push_bit 8 (snd (checksum_sums e)) OR fst (checksum_sums e)) AND 0x7fff < 32768"
    using pack_range by blast+
  have "checksum e = (push_bit 8 (snd (checksum_sums e)) OR fst (checksum_sums e)) AND 0x7fff"
    using r by (simp add: checksum_def Let_def to_u16_def)
  then show ?thesis using pack_low_byte[of "fst (checksum_sums e)" "snd (checksum_sums e)"] checksum_sums_range[of e]
    by simp
qed

lemma stored_after_update: "stored_checksum (update_checksum e) = checksum e"
proof -
  let ?c = "checksum e"
  have r: "0 \<le> ?c" "?c < 32768" using checksum_range by blast+
  have lo: "uint (word_of_int (?c AND 0xff) :: u8) = ?c mod 256"
  proof -
    have "(0xff::int) = mask 8" by (simp add: mask_eq_exp_minus_1)
    then have "?c AND 0xff = take_bit 8 ?c" by (simp add: take_bit_eq_mask)
    then show ?thesis by (simp add: uint_word_of_int take_bit_eq_mod)
  qed
  have hi: "uint (word_of_int (drop_bit 8 ?c) :: u8) = ?c div 256"
  proof -
    have "?c div 256 < 256" using r by simp
    moreover have "0 \<le> ?c div 256" using r by simp
    ultimately show ?thesis by (simp add: uint_word_of_int drop_bit_eq_div)
  qed
  have "stored_checksum (update_checksum e) = (?c div 256 * 256 + ?c mod 256) AND 0x7fff"
    by (simp add: stored_checksum_def update_checksum_def Let_def lo hi)
  also have "\<dots> = ?c AND 0x7fff" by simp
  also have "\<dots> = ?c"
  proof -
    have m: "(0x7fff :: int) = mask 15" by (simp add: mask_eq_exp_minus_1)
    have "?c AND mask 15 = take_bit 15 ?c" by (simp add: take_bit_eq_mask)
    also have "\<dots> = ?c" using r by (simp add: take_bit_int_eq_self)
    finally show ?thesis by (simp only: m)
  qed
  finally show ?thesis .
qed

lemma checksum_sums_cong:
  "(\<And>a. 180 \<le> a \<Longrightarrow> a < 340 \<Longrightarrow> e a = e' a) \<Longrightarrow> checksum_sums e = checksum_sums e'"
proof -
  assume h: "\<And>a. 180 \<le> a \<Longrightarrow> a < 340 \<Longrightarrow> e a = e' a"
  have "map e [180..<340] = map e' [180..<340]"
    by (rule map_cong) (use h in \<open>auto simp del: upt_rec_numeral\<close>)
  then show ?thesis by (simp only: checksum_sums_addrs)
qed

lemma checksum_cong:
  "(\<And>a. 180 \<le> a \<Longrightarrow> a < 340 \<Longrightarrow> e a = e' a) \<Longrightarrow> checksum e = checksum e'"
  using checksum_sums_cong[of e e'] by (simp add: checksum_def)

lemma checksum_update_checksum: "checksum (update_checksum e) = checksum e"
  by (rule checksum_cong) (simp add: update_checksum_def Let_def)

lemma fold_zero_cells:
  "fold (\<lambda>c e'. update_eeprom e' (fst c) (snd c) 0) cs e a =
     (if a \<in> set (map (\<lambda>c. EBASE + fst c * STATIONS + snd c) cs) then 0 else e a)"
  by (induction cs arbitrary: e) (auto simp: update_eeprom_def)

lemma clear_table_at: "clear_table e a = (if 180 \<le> a \<and> a < 340 then 0 else e a)"
  unfolding clear_table_def fold_zero_cells cell_addrs by (simp del: upt_rec_numeral)

lemma update_checksum_other: "a \<noteq> CK1 \<Longrightarrow> a \<noteq> CK2 \<Longrightarrow> update_checksum e a = e a"
  by (simp add: update_checksum_def Let_def)

lemma stored_checksum_cong: "e CK1 = e' CK1 \<Longrightarrow> e CK2 = e' CK2 \<Longrightarrow> stored_checksum e = stored_checksum e'"
  by (simp add: stored_checksum_def)

lemma init_eeprom_table: "180 \<le> a \<Longrightarrow> a < 340 \<Longrightarrow> init_eeprom e a = 0"
  by (simp add: init_eeprom_def Let_def update_checksum_other clear_table_at)

lemma init_eeprom_valid: "stored_checksum (init_eeprom e) = checksum (init_eeprom e)"
proof -
  let ?t = "update_checksum (clear_table e)"
  have "stored_checksum (init_eeprom e) = stored_checksum ?t"
    by (rule stored_checksum_cong) (simp_all add: init_eeprom_def Let_def)
  moreover have "checksum (init_eeprom e) = checksum ?t"
    by (rule checksum_cong) (simp add: init_eeprom_def Let_def)
  ultimately show ?thesis
    by (simp add: stored_after_update checksum_update_checksum)
qed

lemma sum_list_one_changed:
  fixes f g :: "nat \<Rightarrow> int"
  assumes "distinct xs" "a \<in> set xs" "\<And>x. x \<noteq> a \<Longrightarrow> g x = f x"
  shows "sum_list (map g xs) = sum_list (map f xs) - f a + g a"
  using assms(1,2)
proof (induction xs)
  case Nil
  then show ?case by simp
next
  case (Cons x xs)
  show ?case
  proof (cases "x = a")
    case True
    then have "a \<notin> set xs" using Cons.prems by simp
    then have "map g xs = map f xs" using assms(3) by (intro map_cong) (simp, metis)
    then have "sum_list (map g xs) = sum_list (map f xs)" by (simp only:)
    then show ?thesis using True by simp
  next
    case False
    then have "a \<in> set xs" "distinct xs" using Cons.prems by auto
    from Cons.IH[OF this(2,1)] show ?thesis using False assms(3) by simp
  qed
qed

lemma table_sum_update:
  assumes a: "180 \<le> a" "a < 340"
  shows "sum_list (map uint (map (e(a := v)) [180..<340])) =
         sum_list (map uint (map e [180..<340])) - uint (e a) + uint v"
proof -
  have d: "distinct [180..<340::nat]" by (simp del: upt_rec_numeral)
  have m: "a \<in> set [180..<340]" using a by (simp del: upt_rec_numeral)
  have "sum_list (map (\<lambda>x. uint ((e(a := v)) x)) [180..<340]) =
        sum_list (map (\<lambda>x. uint (e x)) [180..<340]) - uint (e a) + uint ((e(a := v)) a)"
    by (rule sum_list_one_changed[OF d m]) simp
  then show ?thesis by (simp add: comp_def del: upt_rec_numeral)
qed

lemma byte_residue:
  fixes x v :: u8
  assumes "v \<noteq> x" "\<not> (x = 0 \<and> v = 255)" "\<not> (x = 255 \<and> v = 0)"
  shows "uint v mod 255 \<noteq> uint x mod 255"
proof
  assume eq: "uint v mod 255 = uint x mod 255"
  have bv: "0 \<le> uint v" "uint v < 256" using uint_lt2p[of v] by simp_all
  have bx: "0 \<le> uint x" "uint x < 256" using uint_lt2p[of x] by simp_all
  have ne: "uint v \<noteq> uint x" using assms(1) by (simp add: word_uint_eq_iff)
  have x0: "uint x = 0 \<longleftrightarrow> x = 0" by (simp add: uint_0_iff)
  have v0: "uint v = 0 \<longleftrightarrow> v = 0" by (simp add: uint_0_iff)
  have x255: "uint x = 255 \<longleftrightarrow> x = 255" by (simp add: word_uint_eq_iff)
  have v255: "uint v = 255 \<longleftrightarrow> v = 255" by (simp add: word_uint_eq_iff)
  have "uint v = uint x \<or> (uint x = 0 \<and> uint v = 255) \<or> (uint x = 255 \<and> uint v = 0)"
  proof -
    have mv: "uint v mod 255 = (if uint v = 255 then 0 else uint v)"
      using bv by (simp add: mod_pos_pos_trivial)
    have mx: "uint x mod 255 = (if uint x = 255 then 0 else uint x)"
      using bx by (simp add: mod_pos_pos_trivial)
    show ?thesis using eq unfolding mv mx by (simp split: if_splits)
  qed
  then show False using ne assms(2,3) x0 v0 x255 v255 by blast
qed

lemma checksum_changed:
  assumes a: "180 \<le> a" "a < 340"
    and v: "v \<noteq> e a" "\<not> (e a = 0 \<and> v = 255)" "\<not> (e a = 255 \<and> v = 0)"
  shows "checksum (e(a := v)) \<noteq> checksum e"
proof
  assume eq: "checksum (e(a := v)) = checksum e"
  have ne: "\<And>f. map f [180..<340::nat] \<noteq> []" by (simp del: upt_rec_numeral)
  let ?S = "sum_list (map uint (map e [180..<340]))"
  have "fst (checksum_sums (e(a := v))) = fst (checksum_sums e)"
    using eq checksum_low[of e] checksum_low[of "e(a := v)"] by simp
  then have "(456 + (?S - uint (e a) + uint v)) mod 255 = (456 + ?S) mod 255"
    unfolding checksum_sums_addrs fold_step_fst[OF ne] table_sum_update[OF a] .
  then have "255 dvd (456 + (?S - uint (e a) + uint v)) - (456 + ?S)"
    by (simp only: mod_eq_dvd_iff)
  then have "255 dvd uint v - uint (e a)" by (simp add: algebra_simps)
  then have "uint v mod 255 = uint (e a) mod 255" by (simp only: mod_eq_dvd_iff)
  then show False using byte_residue[OF v] by simp
qed

lemma eeprom_restore_run: "eeprom (restore_run s now pins) = eeprom s"
  by (simp add: restore_run_def Let_def relays_off_def)

lemma eeprom_setup_boot: "eeprom (setup_boot e now pins) = validate_eeprom e"
  by (simp add: setup_boot_def eeprom_restore_run power_on_def)

lemma run_mode_restore_run:
  "run_mode (restore_run s now pins) =
     (eeprom s STATUS \<noteq> 0 \<and> eeprom s (LAST_TIME_BASE + unat (eeprom s LAST_TIME_INDEX)) \<le> 240)"
  by (auto simp add: restore_run_def Let_def relays_off_def not_less)

lemma last_time_restore_run:
  "last_time (restore_run s now pins) =
     (if eeprom s STATUS \<noteq> 0 \<and> eeprom s (LAST_TIME_BASE + unat (eeprom s LAST_TIME_INDEX)) \<le> 240
      then eeprom s (LAST_TIME_BASE + unat (eeprom s LAST_TIME_INDEX)) else 0)"
  by (auto simp add: restore_run_def Let_def relays_off_def not_less)

lemma lt_restore_run:
  "lt (restore_run s now pins) = ucast (last_time (restore_run s now pins)) * 6"
  by (simp add: restore_run_def Let_def relays_off_def)

lemma init_eeprom_status: "init_eeprom e STATUS = 0"
  by (simp add: init_eeprom_def Let_def)

subsection \<open>Checksum round trip\<close>

text \<open>
  Claim C4. For every EEPROM contents, \<open>update_checksum()\<close> followed by the
  comparison at the start of \<open>setup()\<close> succeeds: the stored 15-bit value read back
  from the two checksum bytes equals the recomputed checksum, the table is not reset,
  and \<open>setup()\<close> leaves the EEPROM as it found it.
\<close>

theorem checksum_round_trip:
  "stored_checksum (update_checksum e) = checksum (update_checksum e)
   \<and> checksum (update_checksum e) = checksum e
   \<and> validate_eeprom (update_checksum e) = update_checksum e
   \<and> eeprom (setup_boot (update_checksum e) now pins) = update_checksum e"
proof -
  have stored: "stored_checksum (update_checksum e) = checksum e"
    by (rule stored_after_update)
  have same: "checksum (update_checksum e) = checksum e"
    by (rule checksum_update_checksum)
  have kept: "validate_eeprom (update_checksum e) = update_checksum e"
    using stored same by (simp add: validate_eeprom_def)
  have boot: "eeprom (setup_boot (update_checksum e) now pins) = update_checksum e"
    using kept by (simp add: eeprom_setup_boot)
  show ?thesis using stored same kept boot by simp
qed

subsection \<open>Corruption reset\<close>

text \<open>
  Claim C3, as stated, fails: the sums are taken modulo 255, so the bytes 0 and 255
  count the same. In a zeroed table with a valid checksum, inverting the byte of
  program 1, station 3 gives 255; the checksum still matches, \<open>setup()\<close> does not
  reset the table and the entry reads 255 after boot.
\<close>

theorem corruption_reset_counterexample:
  "stored_checksum c3_eeprom = checksum c3_eeprom
   \<and> read_eeprom (eeprom (setup_boot (c3_eeprom(199 := NOT (c3_eeprom 199))) 0 all_high)) 1 3 = 255"
proof -
  have z: "checksum (\<lambda>a. 0) = 7881" by code_simp
  have c0: "checksum c3_eeprom = checksum (\<lambda>a. 0)"
    by (rule checksum_cong) (simp add: c3_eeprom_def)
  have c1: "checksum ((\<lambda>a. 0)(199 := 255)) = 7881" by code_simp
  have c2: "checksum (c3_eeprom(199 := 255)) = checksum ((\<lambda>a. 0)(199 := 255))"
    by (rule checksum_cong) (simp add: c3_eeprom_def)
  have s: "stored_checksum c3_eeprom = 7881" "stored_checksum (c3_eeprom(199 := 255)) = 7881"
    by (simp_all add: stored_checksum_def c3_eeprom_def)
  have n: "NOT (c3_eeprom 199) = 255" by (simp add: c3_eeprom_def)
  show ?thesis
    unfolding n eeprom_setup_boot
    by (simp add: validate_eeprom_def s c0 c1 c2 z read_eeprom_def)
qed

text \<open>
  Claim C3, amended. For every EEPROM contents whose stored checksum matches the
  table, replacing one byte of the 160-entry table by a different value, other than
  replacing 0 by 255 or 255 by 0, makes \<open>setup()\<close> take the reset branch: after boot
  all 160 entries read 0, the stored checksum is valid for the zeroed table and the
  run state is off.
\<close>

theorem corruption_reset:
  assumes valid: "stored_checksum e = checksum e"
    and a: "EBASE \<le> a" "a < EBASE + PROGS * STATIONS"
    and v: "v \<noteq> e a" "\<not> (e a = 0 \<and> v = 255)" "\<not> (e a = 255 \<and> v = 0)"
  shows "(\<forall>p < PROGS. \<forall>s < STATIONS. read_eeprom (eeprom (setup_boot (e(a := v)) now pins)) p s = 0)
         \<and> stored_checksum (eeprom (setup_boot (e(a := v)) now pins))
             = checksum (eeprom (setup_boot (e(a := v)) now pins))
         \<and> \<not> run_mode (setup_boot (e(a := v)) now pins)"
proof -
  have a': "180 \<le> a" "a < 340" using a by simp_all
  have "stored_checksum (e(a := v)) = stored_checksum e"
    by (rule stored_checksum_cong) (use a' in simp_all)
  then have "stored_checksum (e(a := v)) \<noteq> checksum (e(a := v))"
    using valid checksum_changed[of a v e, OF a' v] by simp
  then have ve: "validate_eeprom (e(a := v)) = init_eeprom (e(a := v))"
    by (simp add: validate_eeprom_def)
  have t: "\<forall>p < PROGS. \<forall>s < STATIONS. read_eeprom (init_eeprom (e(a := v))) p s = 0"
  proof (intro allI impI)
    fix p s :: nat assume "p < PROGS" "s < STATIONS"
    then have "180 \<le> EBASE + p * STATIONS + s" "EBASE + p * STATIONS + s < 340" by simp_all
    then show "read_eeprom (init_eeprom (e(a := v))) p s = 0"
      unfolding read_eeprom_def by (rule init_eeprom_table)
  qed
  have r: "\<not> run_mode (setup_boot (e(a := v)) now pins)"
    by (simp add: setup_boot_def run_mode_restore_run power_on_def ve init_eeprom_status)
  show ?thesis using t r by (simp add: eeprom_setup_boot ve init_eeprom_valid)
qed

theorem corruption_reset_witness:
  "stored_checksum c3_valid = checksum c3_valid
   \<and> c3_valid 199 = 80
   \<and> read_eeprom (eeprom (setup_boot (c3_valid(199 := NOT (c3_valid 199))) 0 all_high)) 1 3 = 0
   \<and> read_eeprom (eeprom (setup_boot (c3_valid(199 := NOT (c3_valid 199))) 0 all_high)) 9 15 = 0
   \<and> stored_checksum (eeprom (setup_boot (c3_valid(199 := NOT (c3_valid 199))) 0 all_high))
       = checksum (eeprom (setup_boot (c3_valid(199 := NOT (c3_valid 199))) 0 all_high))
   \<and> \<not> run_mode (setup_boot (c3_valid(199 := NOT (c3_valid 199))) 0 all_high)"
proof -
  have valid: "stored_checksum c3_valid = checksum c3_valid"
    by (simp add: c3_valid_def stored_after_update checksum_update_checksum)
  have x: "c3_valid 199 = 80"
    by (simp add: c3_valid_def update_checksum_other)
  have a: "EBASE \<le> (199::nat)" "(199::nat) < EBASE + PROGS * STATIONS" by simp_all
  have v: "NOT (c3_valid 199) \<noteq> c3_valid 199"
    "\<not> (c3_valid 199 = 0 \<and> NOT (c3_valid 199) = 255)"
    "\<not> (c3_valid 199 = 255 \<and> NOT (c3_valid 199) = 0)"
    unfolding x by simp_all
  show ?thesis
    using corruption_reset[OF valid a v, of 0 all_high] valid x by simp
qed

subsection \<open>Recovery of the elapsed time\<close>

text \<open>
  Claim C5. On boot, if the persisted run-state byte is on and the live slot of the
  elapsed-time log holds more than 240, \<open>setup()\<close> ends with the run state off and
  an elapsed time of 0 (so \<open>lt\<close> is 0 as well); a checkpoint of 241 never resumes a run.
\<close>

theorem recovery_rejects_over_240:
  assumes "e STATUS \<noteq> 0" "e (LAST_TIME_BASE + unat (e LAST_TIME_INDEX)) > 240"
  shows "\<not> run_mode (setup_boot e now pins) \<and> last_time (setup_boot e now pins) = 0
         \<and> lt (setup_boot e now pins) = 0"
proof (cases "stored_checksum e \<noteq> checksum e")
  case True
  then have ve: "validate_eeprom e = init_eeprom e" by (simp add: validate_eeprom_def)
  show ?thesis
    by (simp add: lt_restore_run setup_boot_def run_mode_restore_run last_time_restore_run power_on_def ve init_eeprom_status)
next
  case False
  then have ve: "validate_eeprom e = e" by (simp add: validate_eeprom_def)
  have "\<not> e (LAST_TIME_BASE + unat (e LAST_TIME_INDEX)) \<le> 240" using assms(2) by (simp add: not_le)
  then show ?thesis
    by (simp add: lt_restore_run setup_boot_def run_mode_restore_run last_time_restore_run power_on_def ve)
qed

theorem recovery_rejects_over_240_witness:
  "c5_eeprom STATUS \<noteq> 0 \<and> c5_eeprom (LAST_TIME_BASE + unat (c5_eeprom LAST_TIME_INDEX)) = 241
   \<and> \<not> run_mode (setup_boot c5_eeprom 0 all_high) \<and> last_time (setup_boot c5_eeprom 0 all_high) = 0"
proof -
  have 1: "c5_eeprom STATUS \<noteq> 0" by (simp add: c5_eeprom_def)
  have 2: "c5_eeprom (LAST_TIME_BASE + unat (c5_eeprom LAST_TIME_INDEX)) = 241"
    by (simp add: c5_eeprom_def)
  have 3: "c5_eeprom (LAST_TIME_BASE + unat (c5_eeprom LAST_TIME_INDEX)) > 240"
    unfolding 2 by simp
  show ?thesis using recovery_rejects_over_240[OF 1 3, of 0 all_high] 1 2 by simp
qed

subsection \<open>The station walk\<close>

lemma cumulative_Suc: "2 \<le> k \<Longrightarrow> cumulative e p (Suc k) = cumulative e p k + unat (read_eeprom e p (Suc k)) * 6"
  by (simp add: cumulative_def)

lemma cumulative_2: "cumulative e p 2 = 0"
  by (simp add: cumulative_def)

lemma cumulative_mono: "j \<le> k \<Longrightarrow> cumulative e p j \<le> cumulative e p k"
proof (induction k)
  case 0
  then show ?case by simp
next
  case (Suc k)
  show ?case
  proof (cases "j = Suc k")
    case True then show ?thesis by simp
  next
    case False
    then have "j \<le> k" using Suc.prems by simp
    then have "cumulative e p j \<le> cumulative e p k" by (rule Suc.IH)
    moreover have "cumulative e p k \<le> cumulative e p (Suc k)"
      by (simp add: cumulative_def)
    ultimately show ?thesis by simp
  qed
qed

lemma unat_byte: "unat (d :: u8) < 256"
  using unsigned_less[of d, where 'a=nat] by simp

lemma cumulative_bound: "cumulative e p k \<le> 1530 * (k - 2)"
proof (induction k)
  case 0
  then show ?case by (simp add: cumulative_def)
next
  case (Suc k)
  show ?case
  proof (cases "2 \<le> k")
    case True
    have "unat (read_eeprom e p (Suc k)) * 6 \<le> 1530"
      using unat_byte[of "read_eeprom e p (Suc k)"] by simp
    moreover have "1530 * (Suc k - 2) = 1530 * (k - 2) + 1530" using True by simp
    ultimately show ?thesis
      using Suc True by (simp add: cumulative_Suc)
  next
    case False
    then show ?thesis by (simp add: cumulative_def)
  qed
qed

lemma unat_ucast_byte: "unat (ucast (d :: u8) :: u32) = unat d"
  using unat_byte[of d] by (simp add: unsigned_ucast_eq take_bit_nat_eq_self)

lemma unat_byte_times6: "unat ((ucast (d :: u8) :: u32) * 6) = unat d * 6"
  using unat_byte[of d] by (simp add: unat_word_ariths unat_ucast_byte)

lemma unat_add_minutes:
  fixes pt :: u32 and d :: u8
  assumes b: "unat pt \<le> 1530 * 16"
  shows "unat (pt + ucast d * 6) = unat pt + unat d * 6"
proof -
  have "unat (pt + ucast d * 6) = (unat pt + unat ((ucast d :: u32) * 6)) mod 2 ^ 32"
    by (simp add: unat_word_ariths(1))
  also have "\<dots> = (unat pt + unat d * 6) mod 2 ^ 32" by (simp only: unat_byte_times6)
  also have "\<dots> = unat pt + unat d * 6" using b unat_byte[of d] by simp
  finally show ?thesis .
qed

lemma walk_loop_stop: "\<not> (pt \<le> c \<and> s < 13) \<Longrightarrow> walk_loop e p c pt s = (pt, s)"
  by (subst walk_loop.simps) auto

lemma walk_loop_step:
  "pt \<le> c \<Longrightarrow> s < 13 \<Longrightarrow>
   walk_loop e p c pt s = walk_loop e p c (pt + ucast (read_eeprom e p s) * 6) (Suc s)"
  by (subst walk_loop.simps) simp


lemma walk_loop_inv:
  assumes "3 \<le> s" "s \<le> 13" "unat pt = cumulative e p (s - 1)"
  shows "s \<le> snd (walk_loop e p c pt s) \<and> snd (walk_loop e p c pt s) \<le> 13
       \<and> unat (fst (walk_loop e p c pt s)) = cumulative e p (snd (walk_loop e p c pt s) - 1)
       \<and> (fst (walk_loop e p c pt s) \<le> c \<longrightarrow> snd (walk_loop e p c pt s) = 13)
       \<and> (\<forall>i. s \<le> i \<and> i < snd (walk_loop e p c pt s) \<longrightarrow> cumulative e p (i - 1) \<le> unat c)"
  using assms
proof (induction "13 - s" arbitrary: s pt)
  case 0
  then have s: "s = 13" by simp
  then have "walk_loop e p c pt s = (pt, s)" by (simp add: walk_loop_stop)
  then show ?case using "0.prems" s by simp
next
  case (Suc n)
  then have s13: "s < 13" by simp
  show ?case
  proof (cases "pt \<le> c")
    case False
    then have "walk_loop e p c pt s = (pt, s)" by (simp add: walk_loop_stop)
    then show ?thesis using Suc.prems False by simp
  next
    case True
    let ?pt = "pt + ucast (read_eeprom e p s) * 6"
    let ?r = "walk_loop e p c ?pt (Suc s)"
    have unf: "walk_loop e p c pt s = ?r" using True s13 by (rule walk_loop_step)
    have "cumulative e p (s - 1) \<le> 1530 * (s - 1 - 2)" by (rule cumulative_bound)
    then have b: "unat pt \<le> 1530 * 16" using Suc.prems(3) s13 by simp
    have "cumulative e p (Suc (s - 1)) = cumulative e p (s - 1) + unat (read_eeprom e p (Suc (s - 1))) * 6"
      using Suc.prems(1) by (intro cumulative_Suc) simp
    then have pt': "unat ?pt = cumulative e p (Suc s - 1)"
      using Suc.prems(1,3) by (simp add: unat_add_minutes[OF b])
    have n: "n = 13 - Suc s" using Suc.hyps(2) by simp
    have ih: "Suc s \<le> snd ?r \<and> snd ?r \<le> 13
       \<and> unat (fst ?r) = cumulative e p (snd ?r - 1)
       \<and> (fst ?r \<le> c \<longrightarrow> snd ?r = 13)
       \<and> (\<forall>i. Suc s \<le> i \<and> i < snd ?r \<longrightarrow> cumulative e p (i - 1) \<le> unat c)"
      using Suc.hyps(1)[OF n _ _ pt'] Suc.prems(1) s13 by simp
    have here: "cumulative e p (s - 1) \<le> unat c"
      using True Suc.prems(3) by (simp add: word_le_nat_alt)
    have all: "\<forall>i. s \<le> i \<and> i < snd ?r \<longrightarrow> cumulative e p (i - 1) \<le> unat c"
    proof (intro allI impI)
      fix i assume i: "s \<le> i \<and> i < snd ?r"
      show "cumulative e p (i - 1) \<le> unat c"
      proof (cases "i = s")
        case True then show ?thesis using here by simp
      next
        case False
        then have "Suc s \<le> i \<and> i < snd ?r" using i by simp
        then show ?thesis using ih by blast
      qed
    qed
    show ?thesis unfolding unf using ih all by simp
  qed
qed

lemma active_station_some:
  assumes "unat c < cumulative e p 12"
  shows "\<exists>j. active_station e p c = Some (j, of_nat (cumulative e p j) - c) \<and> 3 \<le> j \<and> j < 13
           \<and> unat c < cumulative e p j \<and> (\<forall>i. 3 \<le> i \<and> i < j \<longrightarrow> cumulative e p i \<le> unat c)"
proof -
  let ?r = "walk_loop e p c 0 3"
  have inv: "3 \<le> snd ?r \<and> snd ?r \<le> 13
       \<and> unat (fst ?r) = cumulative e p (snd ?r - 1)
       \<and> (fst ?r \<le> c \<longrightarrow> snd ?r = 13)
       \<and> (\<forall>i. 3 \<le> i \<and> i < snd ?r \<longrightarrow> cumulative e p (i - 1) \<le> unat c)"
    by (rule walk_loop_inv) (simp_all add: cumulative_2)
  have gt: "c < fst ?r"
  proof (rule ccontr)
    assume "\<not> c < fst ?r"
    then have le: "fst ?r \<le> c" by simp
    then have "snd ?r = 13" using inv by blast
    then have "unat (fst ?r) = cumulative e p 12" using inv by simp
    then show False using le assms by (simp add: word_le_nat_alt)
  qed
  have ne3: "snd ?r \<noteq> 3"
  proof
    assume "snd ?r = 3"
    then have "unat (fst ?r) = 0" using inv by (simp add: cumulative_2)
    then show False using gt by (simp add: word_less_nat_alt)
  qed
  let ?j = "snd ?r - 1"
  have j: "3 \<le> ?j" "?j < 13" using inv ne3 by auto
  have cj: "unat c < cumulative e p ?j" using gt inv by (simp add: word_less_nat_alt)
  have before: "\<forall>i. 3 \<le> i \<and> i < ?j \<longrightarrow> cumulative e p i \<le> unat c"
  proof (intro allI impI)
    fix i assume "3 \<le> i \<and> i < ?j"
    then have "3 \<le> Suc i \<and> Suc i < snd ?r" by auto
    then have "cumulative e p (Suc i - 1) \<le> unat c" using inv by blast
    then show "cumulative e p i \<le> unat c" by simp
  qed
  have "of_nat (unat (fst ?r)) = fst ?r" by simp
  then have "of_nat (cumulative e p ?j) = fst ?r" using inv by simp
  then have "active_station e p c = Some (?j, of_nat (cumulative e p ?j) - c)"
    using gt by (simp add: active_station_def Let_def)
  then show ?thesis using j cj before by blast
qed

lemma active_station_none:
  assumes "cumulative e p 12 \<le> unat c"
  shows "active_station e p c = None"
proof -
  let ?r = "walk_loop e p c 0 3"
  have inv: "3 \<le> snd ?r \<and> snd ?r \<le> 13
       \<and> unat (fst ?r) = cumulative e p (snd ?r - 1)
       \<and> (fst ?r \<le> c \<longrightarrow> snd ?r = 13)
       \<and> (\<forall>i. 3 \<le> i \<and> i < snd ?r \<longrightarrow> cumulative e p (i - 1) \<le> unat c)"
    by (rule walk_loop_inv) (simp_all add: cumulative_2)
  have "snd ?r - 1 \<le> 12" using inv by linarith
  then have "cumulative e p (snd ?r - 1) \<le> cumulative e p 12"
    by (rule cumulative_mono)
  then have "unat (fst ?r) \<le> unat c" using inv assms by simp
  then have "\<not> c < fst ?r" by (simp add: word_less_nat_alt)
  then show ?thesis by (simp add: active_station_def Let_def)
qed

lemma active_station_range:
  assumes "active_station e p c = Some (j, r)"
  shows "3 \<le> j \<and> j < 13"
proof (cases "unat c < cumulative e p 12")
  case True
  from active_station_some[OF True] show ?thesis using assms by auto
next
  case False
  then have "active_station e p c = None" by (intro active_station_none) simp
  then show ?thesis using assms by simp
qed

lemma first_exceeding_least:
  assumes "3 \<le> j" "unat c < cumulative e p j" "\<forall>i. 3 \<le> i \<and> i < j \<longrightarrow> cumulative e p i \<le> unat c"
  shows "(LEAST j. 3 \<le> j \<and> unat c < cumulative e p j) = j"
proof (rule Least_equality)
  show "3 \<le> j \<and> unat c < cumulative e p j" using assms by simp
next
  fix y assume y: "3 \<le> y \<and> unat c < cumulative e p y"
  show "j \<le> y"
  proof (rule ccontr)
    assume "\<not> j \<le> y"
    then have "3 \<le> y \<and> y < j" using y by simp
    then have "cumulative e p y \<le> unat c" using assms(3) by blast
    then show False using y by simp
  qed
qed

lemma check_prog_skip: "sel \<noteq> 0 \<Longrightarrow> sel \<noteq> of_nat q \<Longrightarrow> check_prog e sel c q acc = acc"
  by (simp add: check_prog_def)

lemma check_prog_lengths:
  "length (fst (check_prog e sel c q acc)) = length (fst acc)
   \<and> length (fst (snd (check_prog e sel c q acc))) = length (fst (snd acc))"
  by (simp add: check_prog_def split: option.splits prod.splits)

lemma fold_check_prog_lengths:
  "length (fst (fold (check_prog e sel c) qs acc)) = length (fst acc)
   \<and> length (fst (snd (fold (check_prog e sel c) qs acc))) = length (fst (snd acc))"
  by (induction qs arbitrary: acc) (simp_all add: check_prog_lengths)

lemma check_prog_marks:
  assumes "sel = 0 \<or> sel = of_nat p" "active_station e p c = Some (j, r)"
    "j < length (fst acc)" "j < length (fst (snd acc))"
  shows "marked j r (check_prog e sel c p acc)"
  using assms by (auto simp add: check_prog_def marked_def)

lemma check_prog_keeps:
  assumes "marked j r acc"
  shows "marked j r (check_prog e sel c q acc)"
proof (cases "(sel = 0 \<or> sel = of_nat q) \<and> active_station e q c \<noteq> None")
  case False
  then have "check_prog e sel c q acc = acc" by (auto simp add: check_prog_def split: option.splits)
  then show ?thesis using assms by simp
next
  case True
  then obtain k r' where a: "active_station e q c = Some (k, r')" by auto
  have cp: "check_prog e sel c q acc =
      ((fst acc)[k := 1], (fst (snd acc))[k := max r' (fst (snd acc) ! k)], True)"
    using True a by (simp add: check_prog_def)
  show ?thesis
  proof (cases "k = j")
    case True
    have "r \<le> max r' (fst (snd acc) ! j)" using assms by (simp add: marked_def le_max_iff_disj)
    then show ?thesis using assms True unfolding cp marked_def by simp
  next
    case False
    then show ?thesis using assms unfolding cp marked_def by simp
  qed
qed

lemma fold_check_prog_keeps:
  "marked j r acc \<Longrightarrow> marked j r (fold (check_prog e sel c) qs acc)"
  by (induction qs arbitrary: acc) (simp_all add: check_prog_keeps)

lemma fold_check_prog_marks:
  assumes "p \<in> set qs" "sel = 0 \<or> sel = of_nat p" "active_station e p c = Some (j, r)"
    "j < length (fst acc)" "j < length (fst (snd acc))"
  shows "marked j r (fold (check_prog e sel c) qs acc)"
  using assms(1,4,5)
proof (induction qs arbitrary: acc)
  case Nil
  then show ?case by simp
next
  case (Cons q qs)
  show ?case
  proof (cases "q = p")
    case True
    have "marked j r (check_prog e sel c p acc)"
      using assms(2,3) Cons.prems(2,3) by (rule check_prog_marks)
    then show ?thesis using True by (simp add: fold_check_prog_keeps)
  next
    case False
    then have "p \<in> set qs" using Cons.prems(1) by simp
    moreover have "j < length (fst (check_prog e sel c q acc))"
      "j < length (fst (snd (check_prog e sel c q acc)))"
      using Cons.prems(2,3) by (simp_all add: check_prog_lengths)
    ultimately have "marked j r (fold (check_prog e sel c) qs (check_prog e sel c q acc))"
      by (rule Cons.IH)
    then show ?thesis by simp
  qed
qed

lemma check_prog_origin:
  assumes "k < length (fst acc)" "fst (check_prog e sel c q acc) ! k \<noteq> 0"
  shows "fst acc ! k \<noteq> 0 \<or> ((sel = 0 \<or> sel = of_nat q) \<and> (\<exists>r. active_station e q c = Some (k, r)))"
proof (cases "(sel = 0 \<or> sel = of_nat q) \<and> active_station e q c \<noteq> None")
  case False
  then have "check_prog e sel c q acc = acc" by (auto simp add: check_prog_def split: option.splits)
  then show ?thesis using assms by simp
next
  case True
  then obtain k' r' where a: "active_station e q c = Some (k', r')" by auto
  have cp: "fst (check_prog e sel c q acc) = (fst acc)[k' := 1]"
    using True a by (simp add: check_prog_def)
  show ?thesis
  proof (cases "k' = k")
    case True
    then show ?thesis using a \<open>(sel = 0 \<or> sel = of_nat q) \<and> active_station e q c \<noteq> None\<close> by simp
  next
    case False
    then show ?thesis using assms unfolding cp by simp
  qed
qed

lemma fold_check_prog_origin:
  assumes "k < length (fst acc)" "fst (fold (check_prog e sel c) qs acc) ! k \<noteq> 0"
  shows "fst acc ! k \<noteq> 0
         \<or> (\<exists>q \<in> set qs. (sel = 0 \<or> sel = of_nat q) \<and> (\<exists>r. active_station e q c = Some (k, r)))"
  using assms
proof (induction qs arbitrary: acc)
  case Nil
  then show ?case by simp
next
  case (Cons q qs)
  have len: "k < length (fst (check_prog e sel c q acc))"
    using Cons.prems(1) by (simp add: check_prog_lengths)
  have "fst (fold (check_prog e sel c) qs (check_prog e sel c q acc)) ! k \<noteq> 0"
    using Cons.prems(2) by simp
  from Cons.IH[OF len this]
  show ?case
  proof
    assume "fst (check_prog e sel c q acc) ! k \<noteq> 0"
    from check_prog_origin[OF Cons.prems(1) this] show ?thesis by auto
  next
    assume "\<exists>q \<in> set qs. (sel = 0 \<or> sel = of_nat q) \<and> (\<exists>r. active_station e q c = Some (k, r))"
    then show ?thesis by auto
  qed
qed

lemma fold_id: "(\<And>q. q \<in> set qs \<Longrightarrow> f q acc = acc) \<Longrightarrow> fold f qs acc = acc"
  by (induction qs) simp_all

lemma prog_byte_inj:
  assumes "p < 256" "q < 256" "(of_nat q :: u8) = of_nat p"
  shows "q = p"
proof -
  have u: "unat (of_nat q :: u8) = q" "unat (of_nat p :: u8) = p"
    using assms(1,2) by (simp_all add: unat_of_nat)
  have "unat (of_nat q :: u8) = unat (of_nat p :: u8)" using assms(3) by (simp only:)
  then show ?thesis by (simp only: u)
qed

lemma fold_check_prog_single:
  assumes p: "1 \<le> p" "p < 9" and sel: "sel = of_nat p"
  shows "fold (check_prog e sel c) [1..<9] acc = check_prog e sel c p acc"
proof -
  have sel0: "sel \<noteq> 0"
  proof
    assume "sel = 0"
    then have "(of_nat 0 :: u8) = of_nat p" using sel by simp
    then have "0 = p" using p by (intro prog_byte_inj) simp_all
    then show False using p by simp
  qed
  have skip: "\<And>q a. q < 9 \<Longrightarrow> q \<noteq> p \<Longrightarrow> check_prog e sel c q a = a"
  proof -
    fix q a assume q: "q < 9" "q \<noteq> p"
    have "sel \<noteq> of_nat q"
    proof
      assume "sel = of_nat q"
      then have "(of_nat q :: u8) = of_nat p" using sel by simp
      then have "q = p" using p q by (intro prog_byte_inj) simp_all
      then show False using q by simp
    qed
    then show "check_prog e sel c q a = a" using sel0 by (rule check_prog_skip[rotated])
  qed
  have "[Suc 0..<p + (9 - p)] = [Suc 0..<p] @ [p..<p + (9 - p)]"
    using p by (intro upt_add_eq_append) simp
  moreover have "p + (9 - p) = 9" using p by simp
  moreover have "[p..<9] = p # [Suc p..<9]" using p by (intro upt_conv_Cons) simp
  ultimately have split: "[1..<9] = [Suc 0..<p] @ p # [Suc p..<9]"
    by (simp del: upt_rec_numeral)
  have a: "fold (check_prog e sel c) [Suc 0..<p] acc = acc"
    by (rule fold_id) (use skip p in auto)
  have b: "fold (check_prog e sel c) [Suc p..<9] (check_prog e sel c p acc) = check_prog e sel c p acc"
    by (rule fold_id) (use skip p in auto)
  show ?thesis unfolding split by (simp add: a b del: upt_rec_numeral)
qed

lemma eval_tick_fields:
  "st (eval_tick s) = fst (fold (check_prog (eeprom (eval_tick s)) (station s) (ct s)) [1..<9]
                            (replicate STATIONS 0, replicate STATIONS 0, station_active s))"
  "remaining (eval_tick s) = fst (snd (fold (check_prog (eeprom (eval_tick s)) (station s) (ct s)) [1..<9]
                            (replicate STATIONS 0, replicate STATIONS 0, station_active s)))"
  "station_active (eval_tick s) = snd (snd (fold (check_prog (eeprom (eval_tick s)) (station s) (ct s)) [1..<9]
                            (replicate STATIONS 0, replicate STATIONS 0, station_active s)))"
  by (simp_all add: eval_tick_def eval_programs_def Let_def del: upt_rec_numeral)

lemma eval_tick_other:
  "ct (eval_tick s) = ct s" "lt (eval_tick s) = ct s" "bt (eval_tick s) = bt s"
  "run_mode (eval_tick s) = run_mode s" "prog (eval_tick s) = prog s"
  "backwash_delay (eval_tick s) = backwash_delay s" "station (eval_tick s) = station s"
  by (simp_all add: eval_tick_def Let_def)

lemma eval_tick_origin:
  assumes k: "k < STATIONS" and on: "st (eval_tick s) ! k \<noteq> 0"
  shows "\<exists>q r. 1 \<le> q \<and> q < PROGS - 1 \<and> (station s = 0 \<or> station s = of_nat q)
               \<and> active_station (eeprom (eval_tick s)) q (ct s) = Some (k, r)"
proof -
  let ?acc = "(replicate STATIONS 0 :: u8 list, replicate STATIONS 0 :: u32 list, station_active s)"
  have nz: "fst (fold (check_prog (eeprom (eval_tick s)) (station s) (ct s)) [1..<9] ?acc) ! k \<noteq> 0"
    using on unfolding eval_tick_fields .
  have len: "k < length (fst ?acc)" using k by simp
  from fold_check_prog_origin[OF len nz]
  obtain q r where "q \<in> set [1..<9]" "station s = 0 \<or> station s = of_nat q"
    "active_station (eeprom (eval_tick s)) q (ct s) = Some (k, r)"
    using k by auto
  then show ?thesis by (auto simp del: upt_rec_numeral)
qed

lemma eval_tick_program:
  assumes p: "1 \<le> p" "p \<le> MAX_PROG"
    and sel: "station s = 0 \<or> station s = of_nat p"
  shows "(unat (ct s) < cumulative (eeprom (eval_tick s)) p 12 \<longrightarrow>
           (let j = (LEAST j. 3 \<le> j \<and> unat (ct s) < cumulative (eeprom (eval_tick s)) p j);
                r = of_nat (cumulative (eeprom (eval_tick s)) p j) - ct s
            in 3 \<le> j \<and> j < 13
               \<and> active_station (eeprom (eval_tick s)) p (ct s) = Some (j, r)
               \<and> st (eval_tick s) ! j = 1
               \<and> r \<le> remaining (eval_tick s) ! j
               \<and> station_active (eval_tick s)
               \<and> (station s = of_nat p \<longrightarrow>
                    st (eval_tick s) = (replicate STATIONS 0)[j := 1]
                    \<and> remaining (eval_tick s) = (replicate STATIONS 0)[j := r])))
       \<and> (cumulative (eeprom (eval_tick s)) p 12 \<le> unat (ct s) \<longrightarrow>
            active_station (eeprom (eval_tick s)) p (ct s) = None
            \<and> (station s = of_nat p \<longrightarrow>
                 st (eval_tick s) = replicate STATIONS 0
                 \<and> remaining (eval_tick s) = replicate STATIONS 0
                 \<and> station_active (eval_tick s) = station_active s))
       \<and> (\<forall>k < STATIONS. st (eval_tick s) ! k \<noteq> 0 \<longrightarrow>
            (\<exists>q r. 1 \<le> q \<and> q < PROGS - 1 \<and> (station s = 0 \<or> station s = of_nat q)
                   \<and> active_station (eeprom (eval_tick s)) q (ct s) = Some (k, r)))"
proof (intro conjI impI)
  let ?e = "eeprom (eval_tick s)"
  let ?acc = "(replicate STATIONS 0 :: u8 list, replicate STATIONS 0 :: u32 list, station_active s)"
  assume total: "unat (ct s) < cumulative ?e p 12"
  from active_station_some[OF total] obtain j where
    j: "active_station ?e p (ct s) = Some (j, of_nat (cumulative ?e p j) - ct s)"
       "3 \<le> j" "j < 13" "unat (ct s) < cumulative ?e p j"
       "\<forall>i. 3 \<le> i \<and> i < j \<longrightarrow> cumulative ?e p i \<le> unat (ct s)"
    by blast
  have least: "(LEAST j. 3 \<le> j \<and> unat (ct s) < cumulative ?e p j) = j"
    using j(2,4,5) by (rule first_exceeding_least)
  let ?r = "of_nat (cumulative ?e p j) - ct s"
  have pin: "p \<in> set [1..<9]" using p by (simp del: upt_rec_numeral)
  have m: "marked j ?r (fold (check_prog ?e (station s) (ct s)) [1..<9] ?acc)"
    using pin sel j(1) by (rule fold_check_prog_marks) (use j(3) in simp_all)
  have single: "station s = of_nat p \<Longrightarrow>
      st (eval_tick s) = (replicate STATIONS 0)[j := 1]
      \<and> remaining (eval_tick s) = (replicate STATIONS 0)[j := ?r]"
  proof -
    assume one: "station s = of_nat p"
    have "fold (check_prog ?e (station s) (ct s)) [1..<9] ?acc = check_prog ?e (station s) (ct s) p ?acc"
      using p one by (intro fold_check_prog_single) simp_all
    also have "\<dots> = ((replicate STATIONS 0)[j := 1], (replicate STATIONS 0)[j := ?r], True)"
      using one j(1,3) by (simp add: check_prog_def)
    finally show ?thesis by (simp add: eval_tick_fields del: upt_rec_numeral)
  qed
  show "let j = (LEAST j. 3 \<le> j \<and> unat (ct s) < cumulative ?e p j);
            r = of_nat (cumulative ?e p j) - ct s
        in 3 \<le> j \<and> j < 13
           \<and> active_station ?e p (ct s) = Some (j, r)
           \<and> st (eval_tick s) ! j = 1
           \<and> r \<le> remaining (eval_tick s) ! j
           \<and> station_active (eval_tick s)
           \<and> (station s = of_nat p \<longrightarrow>
                st (eval_tick s) = (replicate STATIONS 0)[j := 1]
                \<and> remaining (eval_tick s) = (replicate STATIONS 0)[j := r])"
    unfolding least Let_def
    using j(1,2,3) m single
    by (simp add: marked_def eval_tick_fields del: upt_rec_numeral)
next
  let ?e = "eeprom (eval_tick s)"
  assume total: "cumulative ?e p 12 \<le> unat (ct s)"
  then show "active_station ?e p (ct s) = None" by (rule active_station_none)
next
  let ?e = "eeprom (eval_tick s)"
  let ?acc = "(replicate STATIONS 0 :: u8 list, replicate STATIONS 0 :: u32 list, station_active s)"
  assume total: "cumulative ?e p 12 \<le> unat (ct s)" and one: "station s = of_nat p"
  have none: "active_station ?e p (ct s) = None" using total by (rule active_station_none)
  have "fold (check_prog ?e (station s) (ct s)) [1..<9] ?acc = check_prog ?e (station s) (ct s) p ?acc"
    using p one by (intro fold_check_prog_single) simp_all
  also have "\<dots> = ?acc" using none by (simp add: check_prog_def)
  finally have f: "fold (check_prog ?e (station s) (ct s)) [1..<9] ?acc = ?acc" .
  show "st (eval_tick s) = replicate STATIONS 0" unfolding eval_tick_fields f by simp
  show "remaining (eval_tick s) = replicate STATIONS 0" unfolding eval_tick_fields f by simp
  show "station_active (eval_tick s) = station_active s" unfolding eval_tick_fields f by simp
next
  show "\<forall>k < STATIONS. st (eval_tick s) ! k \<noteq> 0 \<longrightarrow>
            (\<exists>q r. 1 \<le> q \<and> q < PROGS - 1 \<and> (station s = 0 \<or> station s = of_nat q)
                   \<and> active_station (eeprom (eval_tick s)) q (ct s) = Some (k, r))"
    using eval_tick_origin[of _ s] by blast
qed

lemma eval_tick_eeprom:
  "eeprom (eval_tick s)
     = (eeprom s)(LAST_TIME_BASE + unat (eeprom s LAST_TIME_INDEX) := ucast (ct s div 6))"
  by (simp add: eval_tick_def Let_def)

lemma live_slot_below_table:
  assumes "i < LAST_TIME_SIZE"
  shows "read_eeprom (e(LAST_TIME_BASE + i := v)) q k = read_eeprom e q k"
  using assms by (simp add: read_eeprom_def)

lemma cumulative_cong:
  assumes "\<And>k. read_eeprom e' p k = read_eeprom e p k"
  shows "cumulative e' p k = cumulative e p k"
  by (simp add: cumulative_def assms)

text \<open>
  Claim C1. On an evaluated tick (\<open>eval_tick\<close>, with the elapsed time \<open>ct\<close> and
  the selector \<open>station\<close>) the EEPROM the walk reads is the EEPROM before the tick
  with the checkpoint \<open>ct / 6\<close> written to the live log slot; when the
  wear-levelling index is below 16 that slot lies below the table and every table
  cell, and so every cumulative sum, is that of the EEPROM before the tick. For each
  program \<open>p\<close> in 1..5 that the selector selects (0 selects all, otherwise the
  program itself): walking stations 3 up to, not including, 13 and accumulating six
  minutes per stored count, if the program's total exceeds \<open>ct\<close> the walk nominates
  exactly the first station \<open>j\<close> whose cumulative sum exceeds \<open>ct\<close>, with the
  cumulative sum minus \<open>ct\<close> as remaining time; that station is switched on, its
  recorded remaining time is at least that value, and when only \<open>p\<close> is selected it
  is the only station on and the recorded time is exactly that value. If the total is
  at most \<open>ct\<close> the program nominates no station, and when only \<open>p\<close> is selected
  no station is on. Under any selector, a station is on only if a selected program
  among 1..8 (the range of the sketch's loop) nominates it.
\<close>

theorem active_station_first_exceeding:
  assumes p: "1 \<le> p" "p \<le> MAX_PROG"
    and sel: "station s = 0 \<or> station s = of_nat p"
  shows
    "(let e = (eeprom s)(LAST_TIME_BASE + unat (eeprom s LAST_TIME_INDEX) := ucast (ct s div 6))
      in eeprom (eval_tick s) = e
         \<and> (unat (eeprom s LAST_TIME_INDEX) < LAST_TIME_SIZE \<longrightarrow>
              (\<forall>q k. read_eeprom e q k = read_eeprom (eeprom s) q k)
              \<and> (\<forall>q k. cumulative e q k = cumulative (eeprom s) q k))
         \<and> (unat (ct s) < cumulative e p 12 \<longrightarrow>
              (let j = (LEAST j. 3 \<le> j \<and> unat (ct s) < cumulative e p j);
                   r = of_nat (cumulative e p j) - ct s
               in 3 \<le> j \<and> j < 13
                  \<and> active_station e p (ct s) = Some (j, r)
                  \<and> st (eval_tick s) ! j = 1
                  \<and> r \<le> remaining (eval_tick s) ! j
                  \<and> station_active (eval_tick s)
                  \<and> (station s = of_nat p \<longrightarrow>
                       st (eval_tick s) = (replicate STATIONS 0)[j := 1]
                       \<and> remaining (eval_tick s) = (replicate STATIONS 0)[j := r])))
         \<and> (cumulative e p 12 \<le> unat (ct s) \<longrightarrow>
              active_station e p (ct s) = None
              \<and> (station s = of_nat p \<longrightarrow>
                   st (eval_tick s) = replicate STATIONS 0
                   \<and> remaining (eval_tick s) = replicate STATIONS 0
                   \<and> station_active (eval_tick s) = station_active s))
         \<and> (\<forall>k < STATIONS. st (eval_tick s) ! k \<noteq> 0 \<longrightarrow>
              (\<exists>q r. 1 \<le> q \<and> q < PROGS - 1 \<and> (station s = 0 \<or> station s = of_nat q)
                     \<and> active_station e q (ct s) = Some (k, r))))"
proof -
  let ?e = "(eeprom s)(LAST_TIME_BASE + unat (eeprom s LAST_TIME_INDEX) := ucast (ct s div 6))"
  have e: "eeprom (eval_tick s) = ?e" by (rule eval_tick_eeprom)
  have cells: "\<forall>q k. read_eeprom ?e q k = read_eeprom (eeprom s) q k"
    if "unat (eeprom s LAST_TIME_INDEX) < LAST_TIME_SIZE"
    using live_slot_below_table[OF that] by blast
  have sums: "\<forall>q k. cumulative ?e q k = cumulative (eeprom s) q k"
    if "unat (eeprom s LAST_TIME_INDEX) < LAST_TIME_SIZE"
  proof (intro allI)
    fix q k
    show "cumulative ?e q k = cumulative (eeprom s) q k"
      by (rule cumulative_cong) (use cells[OF that] in blast)
  qed
  have walk: "(unat (ct s) < cumulative ?e p 12 \<longrightarrow>
              (let j = (LEAST j. 3 \<le> j \<and> unat (ct s) < cumulative ?e p j);
                   r = of_nat (cumulative ?e p j) - ct s
               in 3 \<le> j \<and> j < 13
                  \<and> active_station ?e p (ct s) = Some (j, r)
                  \<and> st (eval_tick s) ! j = 1
                  \<and> r \<le> remaining (eval_tick s) ! j
                  \<and> station_active (eval_tick s)
                  \<and> (station s = of_nat p \<longrightarrow>
                       st (eval_tick s) = (replicate STATIONS 0)[j := 1]
                       \<and> remaining (eval_tick s) = (replicate STATIONS 0)[j := r])))
         \<and> (cumulative ?e p 12 \<le> unat (ct s) \<longrightarrow>
              active_station ?e p (ct s) = None
              \<and> (station s = of_nat p \<longrightarrow>
                   st (eval_tick s) = replicate STATIONS 0
                   \<and> remaining (eval_tick s) = replicate STATIONS 0
                   \<and> station_active (eval_tick s) = station_active s))
         \<and> (\<forall>k < STATIONS. st (eval_tick s) ! k \<noteq> 0 \<longrightarrow>
              (\<exists>q r. 1 \<le> q \<and> q < PROGS - 1 \<and> (station s = 0 \<or> station s = of_nat q)
                     \<and> active_station ?e q (ct s) = Some (k, r)))"
    using eval_tick_program[OF assms] unfolding e .
  show ?thesis
    unfolding Let_def[of ?e]
    using e cells sums walk by blast
qed

theorem active_station_first_exceeding_witness:
  "station c1_state = of_nat 1 \<and> ct c1_state = 59
   \<and> read_eeprom (eeprom c1_state) 1 3 = 10
   \<and> eeprom (eval_tick c1_state) = (eeprom c1_state)(LAST_TIME_BASE := 9)
   \<and> cumulative (eeprom (eval_tick c1_state)) 1 3 = cumulative (eeprom c1_state) 1 3
   \<and> cumulative (eeprom c1_state) 1 3 = 60
   \<and> active_station (eeprom (eval_tick c1_state)) 1 (ct c1_state) = Some (3, 1)
   \<and> st (eval_tick c1_state) = (replicate STATIONS 0)[3 := 1]
   \<and> remaining (eval_tick c1_state) = (replicate STATIONS 0)[3 := 1]
   \<and> station_active (eval_tick c1_state)"
proof -
  let ?e = "(eeprom c1_state)(LAST_TIME_BASE + unat (eeprom c1_state LAST_TIME_INDEX)
              := ucast (ct c1_state div 6))"
  have sel: "station c1_state = 0 \<or> station c1_state = of_nat 1" by (simp add: c1_state_def)
  have one: "station c1_state = of_nat 1" by (simp add: c1_state_def)
  have c: "ct c1_state = 59" by (simp add: c1_state_def)
  have idx: "unat (eeprom c1_state LAST_TIME_INDEX) < LAST_TIME_SIZE"
    by (simp add: c1_state_def power_on_def)
  have ev: "?e = (eeprom c1_state)(LAST_TIME_BASE := 9)"
    by (simp add: c1_state_def power_on_def)
  have cell0: "read_eeprom (eeprom c1_state) 1 3 = 10"
    by (simp add: c1_state_def power_on_def read_eeprom_def)
  have c0: "cumulative (eeprom c1_state) 1 3 = 60"
    using cumulative_Suc[of 2 "eeprom c1_state" 1] cell0 by (simp add: cumulative_2)
  note inst = active_station_first_exceeding[of 1 c1_state, OF _ _ sel, unfolded Let_def[of ?e]]
  have te: "eeprom (eval_tick c1_state) = ?e" using inst by simp
  have same: "\<forall>q k. cumulative ?e q k = cumulative (eeprom c1_state) q k"
    using inst idx by simp
  have c3: "cumulative ?e 1 3 = 60" using same c0 by simp
  have "cumulative ?e 1 3 \<le> cumulative ?e 1 12" by (rule cumulative_mono) simp
  then have total: "unat (ct c1_state) < cumulative ?e 1 12" using c c3 by simp
  have least: "(LEAST j. 3 \<le> j \<and> unat (ct c1_state) < cumulative ?e 1 j) = 3"
    by (rule first_exceeding_least) (use c c3 in simp_all)
  have r: "of_nat (cumulative ?e 1 3) - ct c1_state = (1::u32)" using c c3 by simp
  have main: "active_station ?e 1 (ct c1_state) = Some (3, 1)
      \<and> st (eval_tick c1_state) = (replicate STATIONS 0)[3 := 1]
      \<and> remaining (eval_tick c1_state) = (replicate STATIONS 0)[3 := 1]
      \<and> station_active (eval_tick c1_state)"
    using inst total one unfolding least Let_def r by simp
  have "cumulative (eeprom (eval_tick c1_state)) 1 3 = cumulative (eeprom c1_state) 1 3"
    unfolding te using same by simp
  then show ?thesis
    using main one c cell0 c0 te ev unfolding te[symmetric] by simp
qed

subsection \<open>The 24-hour ceiling\<close>

lemma c2_valid: "validate_eeprom c2_eeprom = c2_eeprom"
proof -
  let ?t = "(\<lambda>a. 0)(199 := 80, 200 := 80, 201 := 80, 202 := 80, 203 := (80::u8))"
  have "stored_checksum c2_eeprom = stored_checksum (update_checksum ?t)"
    by (rule stored_checksum_cong) (simp_all add: c2_eeprom_def)
  moreover have "checksum c2_eeprom = checksum (update_checksum ?t)"
    by (rule checksum_cong) (simp add: c2_eeprom_def)
  ultimately show ?thesis
    by (simp add: validate_eeprom_def stored_after_update checksum_update_checksum)
qed

lemma c2_cells:
  "c2_eeprom STATUS = 1" "c2_eeprom LAST_PROG = 1" "c2_eeprom LAST_TIME_INDEX = 0"
  "c2_eeprom LAST_TIME_BASE = 239"
  by (simp_all add: c2_eeprom_def)

lemma c2_state_fields:
  "run_mode c2_state" "last_time c2_state = 239" "lt c2_state = 1434" "start_time c2_state = 0"
  "\<not> fast_mode c2_state" "station c2_state = 1" "eeprom c2_state = c2_eeprom"
  "backwash_delay c2_state = 1" "bt c2_state = 1435"
  by (simp_all add: c2_state_def setup_boot_def c2_valid restore_run_def power_on_def Let_def
        c2_cells relays_off_def all_high_def)

lemma c2_elapsed: "elapsed c2_state 360000 = 1440"
  by (simp add: elapsed_def c2_state_fields)

lemma c2_begin: "begin_run c2_state 360000 = c2_state\<lparr>station_active := False, ct := 1440\<rparr>"
proof -
  have "elapsed (c2_state\<lparr>station_active := False\<rparr>) 360000 = 1440"
    by (simp add: elapsed_def c2_state_fields)
  then show ?thesis by (simp add: begin_run_def Let_def)
qed

lemma c2_table:
  "read_eeprom (c2_eeprom(LAST_TIME_BASE := 240)) (Suc 0) 3 = 80"
  "read_eeprom (c2_eeprom(LAST_TIME_BASE := 240)) (Suc 0) 4 = 80"
  "read_eeprom (c2_eeprom(LAST_TIME_BASE := 240)) (Suc 0) 5 = 80"
  "read_eeprom (c2_eeprom(LAST_TIME_BASE := 240)) (Suc 0) 6 = 80"
  by (simp_all add: read_eeprom_def c2_eeprom_def update_checksum_other)

lemma c2_active: "active_station (c2_eeprom(LAST_TIME_BASE := 240)) 1 1440 = Some (6, 480)"
  by (simp add: active_station_def Let_def walk_loop.simps c2_table)

lemma c2_eval:
  "eval_tick (c2_state\<lparr>station_active := False, ct := 1440\<rparr>) =
     c2_state\<lparr>station_active := True, ct := 1440, lt := 1440,
               eeprom := c2_eeprom(LAST_TIME_BASE := 240),
               st := (replicate STATIONS 0)[6 := 1],
               remaining := (replicate STATIONS 0)[6 := 480]\<rparr>"
proof -
  have "\<And>acc. fold (check_prog (c2_eeprom(LAST_TIME_BASE := 240)) 1 1440) [1..<9] acc
        = check_prog (c2_eeprom(LAST_TIME_BASE := 240)) 1 1440 1 acc"
    by (rule fold_check_prog_single) simp_all
  then have f: "\<And>acc. fold (check_prog (c2_eeprom(LAST_TIME_BASE := 240)) 1 1440) [Suc 0..<9] acc
        = check_prog (c2_eeprom(LAST_TIME_BASE := 240)) 1 1440 (Suc 0) acc"
    by (simp del: upt_rec_numeral)
  have a: "active_station (c2_eeprom(LAST_TIME_BASE := 240)) (Suc 0) 1440 = Some (6, 480)"
    using c2_active by simp
  show ?thesis
    unfolding eval_tick_def eval_programs_def Let_def
    by (simp add: c2_state_fields c2_cells f check_prog_def a del: upt_rec_numeral)
qed


lemma c2_run_section:
  "run_section c2_state 360000 =
     Inr (c2_state\<lparr>station_active := True, ct := 1440, lt := 1440,
               eeprom := c2_eeprom(LAST_TIME_BASE := 240),
               st := (replicate STATIONS 0)[6 := 1],
               remaining := (replicate STATIONS 0)[6 := 480],
               bt := 1441, backwash_delay := 0, relays := 130\<rparr>)"
proof -
  let ?s3 = "c2_state\<lparr>station_active := True, ct := 1440, lt := 1440,
               eeprom := c2_eeprom(LAST_TIME_BASE := 240),
               st := (replicate STATIONS 0)[6 := 1],
               remaining := (replicate STATIONS 0)[6 := 480]\<rparr>"
  let ?s4 = "?s3\<lparr>bt := 1441, backwash_delay := 0\<rparr>"
  have bw: "backwash ?s3 = Inr ?s4"
    by (simp add: backwash_def c2_state_fields)
  have rl: "fold (\<lambda>i r. push_bit 1 r OR ((replicate STATIONS 0)[6 := 1] ! i AND 1)) [1..<8] (1::u8) = 130"
    by code_simp
  have stv: "st ?s4 = (replicate STATIONS 0)[6 := 1]" by simp
  have "set_relays ?s4 = ?s4\<lparr>relays := 130\<rparr>"
    unfolding set_relays_def stv rl ..
  then show ?thesis
    unfolding run_section_def c2_begin Let_def run_tick_def c2_eval bw
    by (simp add: c2_state_fields)
qed

text \<open>
  Claim C2, as stated, fails at exactly 1440 minutes: the sketch tests \<open>ct > 24*60\<close>.
  Booting from a checkpoint of 239 with 480-minute stations in program 1 and evaluating
  the tick six minutes later gives \<open>ct = 1440\<close>; the run stays on with the pump and
  station 6 switched on.
\<close>

theorem ceiling_at_1440_counterexample:
  "run_mode c2_state \<and> elapsed c2_state 360000 = 1440
   \<and> map_sum id run_mode (run_section c2_state 360000) = Inr True
   \<and> map_sum id relays (run_section c2_state 360000) = Inr 130"
  unfolding c2_run_section by (simp add: c2_state_fields c2_elapsed)

text \<open>
  Claim C2, amended. On every pass through the run-mode block while running, if the
  elapsed time \<open>ct\<close> is strictly greater than 1440 minutes the run is force-stopped:
  the run state and its EEPROM byte become off, the relay register is cleared and the
  station arrays and the backwash clock are left as they were (the per-program logic
  is skipped), whatever the schedule holds.
\<close>

theorem ceiling_force_stop:
  assumes "run_mode s" "24 * 60 < elapsed s now"
  shows "\<exists>s'. run_section s now = Inr s' \<and> \<not> run_mode s' \<and> eeprom s' = (eeprom s)(STATUS := 0)
            \<and> relays s' = 0 \<and> ct s' = elapsed s now \<and> lt s' = elapsed s now
            \<and> st s' = st s \<and> remaining s' = remaining s \<and> bt s' = bt s"
  using assms
  by (simp add: run_section_def begin_run_def Let_def stop_runmode_def relays_off_def elapsed_def)

theorem ceiling_force_stop_witness:
  "run_mode c2_state \<and> elapsed c2_state 420000 = 1441
   \<and> map_sum id run_mode (run_section c2_state 420000) = Inr False
   \<and> map_sum id relays (run_section c2_state 420000) = Inr 0"
proof -
  have e: "elapsed c2_state 420000 = 1441" by (simp add: elapsed_def c2_state_fields)
  have r: "run_mode c2_state" by (simp add: c2_state_fields)
  have "24 * 60 < elapsed c2_state 420000" unfolding e by simp
  from ceiling_force_stop[OF r this] show ?thesis using r e by auto
qed

subsection \<open>A checkpoint of exactly 240\<close>

lemma restore_run_fields:
  "fast_mode (restore_run s now pins) = fast_mode s"
  "start_time (restore_run s now pins) = (if eeprom s STATUS \<noteq> 0 then now else start_time s)"
  "prog (restore_run s now pins) = prog s"
  by (simp_all add: restore_run_def Let_def relays_off_def)

text \<open>
  Claim C10. On boot with a valid table checksum and the persisted run state on, the
  run is resumed exactly when the live checkpoint is at most 240. A checkpoint of
  exactly 240 is accepted: \<open>setup()\<close> ends with the run state on, an elapsed time of
  240 units and \<open>lt = 1440\<close>, and a pass of \<open>loop()\<close> within the first minute
  computes \<open>ct = 1440\<close> and leaves the run on.
\<close>

theorem recovery_accepts_240:
  assumes valid: "stored_checksum e = checksum e" and on: "e STATUS \<noteq> 0"
  shows "(run_mode (setup_boot e now pins) \<longleftrightarrow> e (LAST_TIME_BASE + unat (e LAST_TIME_INDEX)) \<le> 240)
       \<and> (e (LAST_TIME_BASE + unat (e LAST_TIME_INDEX)) = 240 \<longrightarrow>
             run_mode (setup_boot e now pins)
             \<and> last_time (setup_boot e now pins) = 240
             \<and> lt (setup_boot e now pins) = 1440
             \<and> (\<forall>now'. now' - now < 60000 \<longrightarrow>
                   elapsed (setup_boot e now pins) now' = 1440
                   \<and> (\<exists>s'. run_section (setup_boot e now pins) now' = Inr s'
                             \<and> run_mode s' \<and> ct s' = 1440)))"
proof -
  let ?S = "setup_boot e now pins"
  have ve: "validate_eeprom e = e" using valid by (simp add: validate_eeprom_def)
  have rm: "run_mode ?S \<longleftrightarrow> e (LAST_TIME_BASE + unat (e LAST_TIME_INDEX)) \<le> 240"
    using on by (simp add: setup_boot_def run_mode_restore_run power_on_def ve)
  have rest: "run_mode ?S \<and> last_time ?S = 240 \<and> lt ?S = 1440
             \<and> (\<forall>now'. now' - now < 60000 \<longrightarrow>
                   elapsed ?S now' = 1440
                   \<and> (\<exists>s'. run_section ?S now' = Inr s' \<and> run_mode s' \<and> ct s' = 1440))"
    if slot: "e (LAST_TIME_BASE + unat (e LAST_TIME_INDEX)) = 240"
  proof -
    have r: "run_mode ?S" using rm slot by simp
    have l: "last_time ?S = 240"
      using on slot by (simp add: setup_boot_def last_time_restore_run power_on_def ve)
    have lt: "lt ?S = 1440"
      by (simp add: setup_boot_def lt_restore_run last_time_restore_run power_on_def ve on slot)
    have fm: "\<not> fast_mode ?S" "start_time ?S = now"
      using on by (simp_all add: setup_boot_def restore_run_fields power_on_def ve)
    have tick: "elapsed ?S now' = 1440
                \<and> (\<exists>s'. run_section ?S now' = Inr s' \<and> run_mode s' \<and> ct s' = 1440)"
      if early: "now' - now < 60000" for now'
    proof -
      have "(now' - now) div 60000 = 0"
        using early by (rule div_word_less)
      then have el: "elapsed ?S now' = 1440" by (simp add: elapsed_def fm l)
      have el': "elapsed (?S\<lparr>station_active := False\<rparr>) now' = 1440"
        using el by (simp add: elapsed_def)
      have "run_section ?S now' = Inr (?S\<lparr>station_active := False, ct := 1440\<rparr>)"
        using r lt by (simp add: run_section_def begin_run_def Let_def el')
      then show ?thesis using el r by simp
    qed
    show ?thesis using r l lt tick by blast
  qed
  show ?thesis using rm rest by blast
qed

theorem recovery_accepts_240_witness:
  "stored_checksum c10_eeprom = checksum c10_eeprom \<and> c10_eeprom STATUS \<noteq> 0
   \<and> c10_eeprom (LAST_TIME_BASE + unat (c10_eeprom LAST_TIME_INDEX)) = 240
   \<and> run_mode (setup_boot c10_eeprom 0 all_high)
   \<and> last_time (setup_boot c10_eeprom 0 all_high) = 240
   \<and> lt (setup_boot c10_eeprom 0 all_high) = 1440
   \<and> map_sum id run_mode (run_section (setup_boot c10_eeprom 0 all_high) 59999) = Inr True
   \<and> map_sum id ct (run_section (setup_boot c10_eeprom 0 all_high) 59999) = Inr 1440"
proof -
  have z: "checksum (\<lambda>a. 0) = 7881" by code_simp
  have c0: "checksum c10_eeprom = checksum (\<lambda>a. 0)"
    by (rule checksum_cong) (simp add: c10_eeprom_def)
  have valid: "stored_checksum c10_eeprom = checksum c10_eeprom"
    unfolding c0 z by (simp add: stored_checksum_def c10_eeprom_def)
  have on: "c10_eeprom STATUS \<noteq> 0" by (simp add: c10_eeprom_def)
  have slot: "c10_eeprom (LAST_TIME_BASE + unat (c10_eeprom LAST_TIME_INDEX)) = 240"
    by (simp add: c10_eeprom_def)
  have early: "(59999::u32) - 0 < 60000" by simp
  from recovery_accepts_240[OF valid on, of 0 all_high] slot early
  have "run_mode (setup_boot c10_eeprom 0 all_high)
        \<and> last_time (setup_boot c10_eeprom 0 all_high) = 240
        \<and> lt (setup_boot c10_eeprom 0 all_high) = 1440
        \<and> (\<exists>s'. run_section (setup_boot c10_eeprom 0 all_high) 59999 = Inr s'
                   \<and> run_mode s' \<and> ct s' = 1440)"
    by blast
  then show ?thesis using valid on slot by auto
qed

subsection \<open>Wear levelling\<close>

lemma start_runmode_index:
  "unat (eeprom (start_runmode s now) LAST_TIME_INDEX) = (unat (eeprom s LAST_TIME_INDEX) + 1) mod 16"
proof -
  have "(unat (eeprom s LAST_TIME_INDEX) + 1) mod 16 < 256"
    by (rule less_trans[of _ 16]) simp_all
  then have "unat (word_of_nat ((unat (eeprom s LAST_TIME_INDEX) + 1) mod 16) :: u8)
      = (unat (eeprom s LAST_TIME_INDEX) + 1) mod 16"
    by (simp add: unat_of_nat)
  then show ?thesis by (simp add: start_runmode_def Let_def)
qed

lemma start_runmode_cells:
  "eeprom (start_runmode s now) (LAST_TIME_BASE + unat (eeprom (start_runmode s now) LAST_TIME_INDEX)) = 0"
  "eeprom (start_runmode s now) STATUS = 1"
  "eeprom (start_runmode s now) LAST_PROG = station s"
  "run_mode (start_runmode s now)"
  by (simp_all add: start_runmode_def Let_def)

lemma visited_slots_rotate:
  "visited_slots s ts
     = map (\<lambda>k. (unat (eeprom s LAST_TIME_INDEX) + 1 + k) mod 16) [0..<length ts]"
proof (induction ts arbitrary: s)
  case Nil
  then show ?case by simp
next
  case (Cons t ts)
  let ?i = "unat (eeprom s LAST_TIME_INDEX)"
  have "visited_slots (start_runmode s t) ts
        = map (\<lambda>k. ((?i + 1) mod 16 + 1 + k) mod 16) [0..<length ts]"
    by (simp only: Cons.IH start_runmode_index)
  also have "\<dots> = map (\<lambda>k. (?i + 1 + Suc k) mod 16) [0..<length ts]"
  proof (rule map_cong[OF refl])
    fix k
    have "((?i + 1) mod 16 + (1 + k)) mod 16 = ((?i + 1) + (1 + k)) mod 16"
      by (rule mod_add_left_eq)
    then show "((?i + 1) mod 16 + 1 + k) mod 16 = (?i + 1 + Suc k) mod 16"
      by (simp add: add.assoc)
  qed
  also have "\<dots> = map (\<lambda>k. (?i + 1 + k) mod 16) (map Suc [0..<length ts])"
    by (simp add: comp_def)
  finally have tl: "visited_slots (start_runmode s t) ts
        = map (\<lambda>k. (?i + 1 + k) mod 16) [Suc 0..<Suc (length ts)]"
    by (simp only: map_Suc_upt)
  have "[0..<Suc (length ts)] = 0 # [Suc 0..<Suc (length ts)]"
    by (rule upt_conv_Cons) simp
  then show ?case
    by (simp add: tl start_runmode_index del: upt_Suc)
qed

lemma mod16_if:
  "a < 16 \<Longrightarrow> x < 16 \<Longrightarrow> (a + x) mod 16 = (if a + x < 16 then a + x else a + x - (16::nat))"
  by (simp add: mod_if)

lemma mod16_inj:
  assumes "a < 16" "x < 16" "y < 16" "(a + x) mod 16 = (a + y) mod (16::nat)"
  shows "x = y"
proof -
  have "(if a + x < 16 then a + x else a + x - 16) = (if a + y < 16 then a + y else a + y - 16)"
    using assms mod16_if[of a x] mod16_if[of a y] by (simp only:)
  then show ?thesis using assms(1-3) by (simp split: if_splits)
qed

lemma mod16_wrap: "(17 + i) mod 16 = Suc i mod (16::nat)"
proof -
  have "17 + i = Suc i + 16" by simp
  then show ?thesis by (simp only: mod_add_self2)
qed

lemma rotation_distinct: "distinct (map (\<lambda>k. (c + k) mod 16) [0..<16::nat])"
proof -
  have "inj_on (\<lambda>k. (c + k) mod 16) {0..<16::nat}"
  proof (rule inj_onI)
    fix x y :: nat assume x: "x \<in> {0..<16}" and y: "y \<in> {0..<16}"
      and eq: "(c + x) mod 16 = (c + y) mod 16"
    have "(c + x) mod 16 = (c mod 16 + x) mod 16" "(c + y) mod 16 = (c mod 16 + y) mod 16"
      by (simp_all add: mod_add_left_eq)
    then have "(c mod 16 + x) mod 16 = (c mod 16 + y) mod 16" using eq by simp
    moreover have "c mod 16 < 16" by simp
    ultimately show "x = y" using x y
      by (intro mod16_inj[of "c mod 16" x y]) simp_all
  qed
  then show ?thesis by (simp add: distinct_map del: upt_rec_numeral)
qed

lemma rotation_set: "set (map (\<lambda>k. (c + k) mod 16) [0..<16::nat]) = {0..<16}"
proof (rule card_subset_eq)
  show "finite {0..<16::nat}" by simp
  show "set (map (\<lambda>k. (c + k) mod 16) [0..<16]) \<subseteq> {0..<16}"
    by (auto simp del: upt_rec_numeral)
  have "card (set (map (\<lambda>k. (c + k) mod 16) [0..<16])) = length (map (\<lambda>k. (c + k) mod 16) [0..<16::nat])"
    using rotation_distinct[of c] by (rule distinct_card)
  then show "card (set (map (\<lambda>k. (c + k) mod 16) [0..<16])) = card {0..<16::nat}"
    by (simp del: upt_rec_numeral)
qed

text \<open>
  Claim C7. Every \<open>start_runmode()\<close> call advances the wear-levelling index to
  (index + 1) mod 16, clears the new live slot and stores the run state and the
  selector; 16 consecutive calls visit the slots index+1, index+2, ... modulo 16, which
  are all 16 slots, each exactly once, and the 17th call returns to the first of them.
\<close>

theorem wear_leveling_rotation:
  "unat (eeprom (start_runmode s now) LAST_TIME_INDEX) = (unat (eeprom s LAST_TIME_INDEX) + 1) mod LAST_TIME_SIZE
   \<and> eeprom (start_runmode s now)
        (LAST_TIME_BASE + unat (eeprom (start_runmode s now) LAST_TIME_INDEX)) = 0
   \<and> eeprom (start_runmode s now) STATUS = 1
   \<and> eeprom (start_runmode s now) LAST_PROG = station s
   \<and> (length ts = LAST_TIME_SIZE \<longrightarrow>
        visited_slots s ts
          = map (\<lambda>k. (unat (eeprom s LAST_TIME_INDEX) + 1 + k) mod LAST_TIME_SIZE) [0..<LAST_TIME_SIZE]
        \<and> distinct (visited_slots s ts)
        \<and> set (visited_slots s ts) = {0..<LAST_TIME_SIZE}
        \<and> visited_slots s (ts @ [t]) ! LAST_TIME_SIZE = visited_slots s ts ! 0)"
proof -
  have rot: "distinct (visited_slots s ts) \<and> set (visited_slots s ts) = {0..<16}
      \<and> visited_slots s ts = map (\<lambda>k. (unat (eeprom s LAST_TIME_INDEX) + 1 + k) mod 16) [0..<16]
      \<and> visited_slots s (ts @ [t]) ! 16 = visited_slots s ts ! 0"
    if len: "length ts = 16"
  proof -
    let ?c = "unat (eeprom s LAST_TIME_INDEX) + 1"
    have v: "visited_slots s ts = map (\<lambda>k. (?c + k) mod 16) [0..<16]"
      unfolding visited_slots_rotate len ..
    have "visited_slots s (ts @ [t]) = map (\<lambda>k. (?c + k) mod 16) [0..<17]"
      unfolding visited_slots_rotate using len by simp
    then have "visited_slots s (ts @ [t]) ! 16 = (?c + 16) mod 16"
      by (simp del: upt_rec_numeral)
    moreover have "visited_slots s ts ! 0 = (?c + 0) mod 16"
      unfolding v by (simp del: upt_rec_numeral)
    ultimately have w: "visited_slots s (ts @ [t]) ! 16 = visited_slots s ts ! 0"
      by (simp add: mod16_wrap)
    show ?thesis
      using rotation_distinct[of ?c] rotation_set[of ?c] w unfolding v[symmetric]
      using v by simp
  qed
  show ?thesis
  proof (intro conjI impI)
    show "unat (eeprom (start_runmode s now) LAST_TIME_INDEX)
          = (unat (eeprom s LAST_TIME_INDEX) + 1) mod LAST_TIME_SIZE"
      by (rule start_runmode_index)
    show "eeprom (start_runmode s now)
        (LAST_TIME_BASE + unat (eeprom (start_runmode s now) LAST_TIME_INDEX)) = 0"
      by (rule start_runmode_cells)
    show "eeprom (start_runmode s now) STATUS = 1" by (rule start_runmode_cells)
    show "eeprom (start_runmode s now) LAST_PROG = station s" by (rule start_runmode_cells)
  next
    assume len: "length ts = LAST_TIME_SIZE"
    show "visited_slots s ts
          = map (\<lambda>k. (unat (eeprom s LAST_TIME_INDEX) + 1 + k) mod LAST_TIME_SIZE) [0..<LAST_TIME_SIZE]"
      using rot[OF len] by blast
    show "distinct (visited_slots s ts)" using rot[OF len] by blast
    show "set (visited_slots s ts) = {0..<LAST_TIME_SIZE}" using rot[OF len] by blast
    show "visited_slots s (ts @ [t]) ! LAST_TIME_SIZE = visited_slots s ts ! 0"
      using rot[OF len] by blast
  qed
qed

theorem wear_leveling_rotation_witness:
  "length (replicate 16 (0::u32)) = LAST_TIME_SIZE
   \<and> visited_slots (power_on ((\<lambda>a. 0)(LAST_TIME_INDEX := 14))) (replicate 16 0)
       = [15, 0, 1, 2, 3, 4, 5, 6, 7, 8, 9, 10, 11, 12, 13, 14]"
proof -
  have i: "unat (eeprom (power_on ((\<lambda>a. 0)(LAST_TIME_INDEX := 14))) LAST_TIME_INDEX) = 14"
    by (simp add: power_on_def)
  have l: "length (replicate 16 (0::u32)) = LAST_TIME_SIZE" by simp
  from wear_leveling_rotation[of "power_on ((\<lambda>a. 0)(LAST_TIME_INDEX := 14))" 0 "replicate 16 0" 0] l
  have "visited_slots (power_on ((\<lambda>a. 0)(LAST_TIME_INDEX := 14))) (replicate 16 0)
        = map (\<lambda>k. (14 + 1 + k) mod 16) [0..<16]"
    unfolding i by blast
  moreover have "map (\<lambda>k. (14 + 1 + k) mod 16) [0..<16]
      = [15, 0, 1, 2, 3, 4, 5, 6, 7, 8, 9, 10, 11, 12, 13, 14::nat]"
    by code_simp
  ultimately show ?thesis using l by (simp only:)
qed

subsection \<open>The mode button\<close>

lemma c9_valid: "stored_checksum c9_eeprom = checksum c9_eeprom"
proof -
  let ?t = "(\<lambda>a. 0)(199 := (10::u8))"
  have "stored_checksum c9_eeprom = stored_checksum (update_checksum ?t)"
    by (rule stored_checksum_cong) (simp_all add: c9_eeprom_def)
  moreover have "checksum c9_eeprom = checksum (update_checksum ?t)"
    by (rule checksum_cong) (simp add: c9_eeprom_def)
  ultimately show ?thesis
    by (simp add: stored_after_update checksum_update_checksum)
qed

lemma c9_cells:
  "c9_eeprom STATUS = 1" "c9_eeprom LAST_PROG = 1" "c9_eeprom LAST_TIME_INDEX = 94"
  "c9_eeprom 199 = 10"
  by (simp_all add: c9_eeprom_def update_checksum_other)

lemma c9_boot_fields:
  "run_mode c9_boot" "last_time c9_boot = 10" "lt c9_boot = 60" "start_time c9_boot = 0"
  "\<not> fast_mode c9_boot" "station c9_boot = 1" "eeprom c9_boot = c9_eeprom" "prog c9_boot = 0"
  by (simp_all add: c9_boot_def setup_boot_def validate_eeprom_def c9_valid restore_run_def
        power_on_def Let_def c9_cells relays_off_def all_high_def)

lemma c9_begin: "begin_run c9_boot 360000 = c9_boot\<lparr>station_active := False, ct := 66\<rparr>"
proof -
  have "elapsed (c9_boot\<lparr>station_active := False\<rparr>) 360000 = 66"
    by (simp add: elapsed_def c9_boot_fields)
  then show ?thesis by (simp add: begin_run_def Let_def)
qed

lemma c9_table:
  "read_eeprom (c9_eeprom(199 := 11)) (Suc 0) 3 = 11"
  "read_eeprom (c9_eeprom(199 := 11)) (Suc 0) 4 = 0"
  "read_eeprom (c9_eeprom(199 := 11)) (Suc 0) 5 = 0"
  "read_eeprom (c9_eeprom(199 := 11)) (Suc 0) 6 = 0"
  "read_eeprom (c9_eeprom(199 := 11)) (Suc 0) 7 = 0"
  "read_eeprom (c9_eeprom(199 := 11)) (Suc 0) 8 = 0"
  "read_eeprom (c9_eeprom(199 := 11)) (Suc 0) 9 = 0"
  "read_eeprom (c9_eeprom(199 := 11)) (Suc 0) 10 = 0"
  "read_eeprom (c9_eeprom(199 := 11)) (Suc 0) 11 = 0"
  "read_eeprom (c9_eeprom(199 := 11)) (Suc 0) 12 = 0"
  by (simp_all add: read_eeprom_def c9_eeprom_def update_checksum_other)

lemma c9_active: "active_station (c9_eeprom(199 := 11)) (Suc 0) 66 = None"
  by (simp add: active_station_def Let_def walk_loop.simps c9_table)

lemma c9_eval:
  "eval_tick (c9_boot\<lparr>station_active := False, ct := 66\<rparr>) =
     c9_boot\<lparr>station_active := False, ct := 66, lt := 66,
               eeprom := c9_eeprom(199 := 11),
               st := replicate STATIONS 0,
               remaining := replicate STATIONS 0\<rparr>"
proof -
  have "\<And>acc. fold (check_prog (c9_eeprom(199 := 11)) 1 66) [1..<9] acc
        = check_prog (c9_eeprom(199 := 11)) 1 66 1 acc"
    by (rule fold_check_prog_single) simp_all
  then have f: "\<And>acc. fold (check_prog (c9_eeprom(199 := 11)) 1 66) [Suc 0..<9] acc
        = check_prog (c9_eeprom(199 := 11)) 1 66 (Suc 0) acc"
    by (simp del: upt_rec_numeral)
  show ?thesis
    unfolding eval_tick_def eval_programs_def Let_def
    by (simp add: c9_boot_fields c9_cells f check_prog_def c9_active del: upt_rec_numeral)
qed

lemma c9_state_eq:
  "c9_state = c9_boot\<lparr>station_active := False, ct := 66, lt := 66,
               eeprom := c9_eeprom(199 := 11, STATUS := 0),
               st := replicate STATIONS 0,
               remaining := replicate STATIONS 0, run_mode := False, relays := 0\<rparr>"
  unfolding c9_state_def run_section_def c9_begin Let_def run_tick_def c9_eval
  by (simp add: c9_boot_fields stop_runmode_def relays_off_def)

lemma c9_run: "run_section c9_boot 360000 = Inr c9_state"
  unfolding c9_state_eq
  unfolding run_section_def c9_begin Let_def run_tick_def c9_eval
  by (simp add: c9_boot_fields stop_runmode_def relays_off_def)

lemma button1_prog:
  "prog (button1 s) = (if prog s + 1 > 9 then 0 else if prog s + 1 > 5 then 9 else prog s + 1)"
  by (simp add: button1_def Let_def stop_runmode_def relays_off_def)

lemma button1_from_zero:
  "prog s = 0 \<Longrightarrow> button1 s =
     s\<lparr>debounce := 32, run_mode := False, eeprom := (eeprom s)(STATUS := 0), relays := 0,
        station := 3, prog := 1, duration := read_eeprom ((eeprom s)(STATUS := 0)) 1 3\<rparr>"
  by (simp add: button1_def Let_def stop_runmode_def relays_off_def)

lemma button1_eeprom_nonzero:
  "prog s \<noteq> 0 \<Longrightarrow> eeprom (button1 s) =
     update_checksum (update_eeprom (eeprom s) (unat (prog s)) (unat (station s)) (duration s))"
  by (simp add: button1_def Let_def)

text \<open>
  Claim C9, as stated, fails in its last clause: \<open>update_checksum()\<close> is called
  under \<open>if (prog != 0)\<close>, that is when a non-zero program is left, not when
  program 0 is left. In the reachable state \<open>c9_state\<close> the cursor is 0 and the stored
  checksum is stale; after the mode button the cursor is 1 and the stored checksum
  still differs from the checksum of the table.
\<close>

theorem mode_button_counterexample:
  "reachable c9_state \<and> prog c9_state = 0 \<and> prog (button1 c9_state) = 1
   \<and> stored_checksum (eeprom (button1 c9_state)) \<noteq> checksum (eeprom (button1 c9_state))"
proof -
  have "reachable c9_boot" unfolding c9_boot_def by (rule reachable.boot)
  then have r: "reachable c9_state" using c9_run by (rule reachable.run)
  have p: "prog c9_state = 0" by (simp add: c9_state_eq c9_boot_fields)
  have e: "eeprom (button1 c9_state) = c9_eeprom(199 := 11, STATUS := 0)"
    by (simp add: button1_from_zero[OF p]) (simp add: c9_state_eq)
  have s: "stored_checksum (c9_eeprom(199 := 11, STATUS := 0)) = stored_checksum c9_eeprom"
    by (rule stored_checksum_cong) simp_all
  have c: "checksum (c9_eeprom(199 := 11, STATUS := 0)) = checksum (c9_eeprom(199 := 11))"
    by (rule checksum_cong) simp
  have "checksum (c9_eeprom(199 := 11)) \<noteq> checksum c9_eeprom"
    by (rule checksum_changed) (simp_all add: c9_cells)
  then have "stored_checksum (eeprom (button1 c9_state)) \<noteq> checksum (eeprom (button1 c9_state))"
    unfolding e s c c9_valid by simp
  then show ?thesis using r p by (simp add: button1_prog)
qed

text \<open>
  Claim C9, amended. Pressing the mode button cycles the program cursor through
  0, 1, 2, 3, 4, 5, 9 and back to 0. When it leaves a non-zero program it writes the
  pending duration to the table cell of the cursor and then recomputes and stores the
  checksum, which is valid afterwards. When it leaves program 0 it stops the run
  (run state and its EEPROM byte off, relays cleared) and writes nothing else: neither
  a table cell nor the checksum.
\<close>

theorem mode_button:
  "(prog s = 0 \<longrightarrow> prog (button1 s) = 1)
   \<and> (prog s = 1 \<longrightarrow> prog (button1 s) = 2)
   \<and> (prog s = 2 \<longrightarrow> prog (button1 s) = 3)
   \<and> (prog s = 3 \<longrightarrow> prog (button1 s) = 4)
   \<and> (prog s = 4 \<longrightarrow> prog (button1 s) = 5)
   \<and> (prog s = 5 \<longrightarrow> prog (button1 s) = 9)
   \<and> (prog s = 9 \<longrightarrow> prog (button1 s) = 0)
   \<and> (prog s \<noteq> 0 \<longrightarrow>
        eeprom (button1 s)
          = update_checksum (update_eeprom (eeprom s) (unat (prog s)) (unat (station s)) (duration s))
        \<and> read_eeprom (eeprom (button1 s)) (unat (prog s)) (unat (station s)) = duration s
        \<and> stored_checksum (eeprom (button1 s)) = checksum (eeprom (button1 s)))
   \<and> (prog s = 0 \<longrightarrow>
        eeprom (button1 s) = (eeprom s)(STATUS := 0) \<and> \<not> run_mode (button1 s)
        \<and> relays (button1 s) = 0)"
proof -
  have nz: "eeprom (button1 s)
          = update_checksum (update_eeprom (eeprom s) (unat (prog s)) (unat (station s)) (duration s))
        \<and> read_eeprom (eeprom (button1 s)) (unat (prog s)) (unat (station s)) = duration s
        \<and> stored_checksum (eeprom (button1 s)) = checksum (eeprom (button1 s))"
    if "prog s \<noteq> 0"
  proof -
    let ?u = "update_eeprom (eeprom s) (unat (prog s)) (unat (station s)) (duration s)"
    have e: "eeprom (button1 s) = update_checksum ?u" using that by (rule button1_eeprom_nonzero)
    have "read_eeprom (update_checksum ?u) (unat (prog s)) (unat (station s))
          = read_eeprom ?u (unat (prog s)) (unat (station s))"
      unfolding read_eeprom_def by (rule update_checksum_other) simp_all
    then have rd: "read_eeprom (eeprom (button1 s)) (unat (prog s)) (unat (station s)) = duration s"
      unfolding e by (simp add: read_eeprom_def update_eeprom_def)
    show ?thesis using e rd by (simp add: stored_after_update checksum_update_checksum)
  qed
  have z: "eeprom (button1 s) = (eeprom s)(STATUS := 0) \<and> \<not> run_mode (button1 s)
        \<and> relays (button1 s) = 0" if "prog s = 0"
    by (simp add: button1_from_zero[OF that])
  have cyc: "(prog s = 0 \<longrightarrow> prog (button1 s) = 1)
   \<and> (prog s = 1 \<longrightarrow> prog (button1 s) = 2)
   \<and> (prog s = 2 \<longrightarrow> prog (button1 s) = 3)
   \<and> (prog s = 3 \<longrightarrow> prog (button1 s) = 4)
   \<and> (prog s = 4 \<longrightarrow> prog (button1 s) = 5)
   \<and> (prog s = 5 \<longrightarrow> prog (button1 s) = 9)
   \<and> (prog s = 9 \<longrightarrow> prog (button1 s) = 0)"
    by (simp add: button1_prog)
  show ?thesis using cyc nz z by blast
qed

theorem mode_button_witness:
  "prog c9_edit = 1 \<and> station c9_edit = 3 \<and> duration c9_edit = 25
   \<and> prog (button1 c9_edit) = 2
   \<and> read_eeprom (eeprom (button1 c9_edit)) 1 3 = 25
   \<and> stored_checksum (eeprom (button1 c9_edit)) = checksum (eeprom (button1 c9_edit))"
proof -
  have f: "prog c9_edit = 1" "station c9_edit = 3" "duration c9_edit = 25"
    by (simp_all add: c9_edit_def)
  have nz: "prog c9_edit \<noteq> 0" unfolding f by simp
  from mode_button[of c9_edit] nz f(1)
  have a: "prog (button1 c9_edit) = 2"
    and b: "read_eeprom (eeprom (button1 c9_edit)) (unat (prog c9_edit)) (unat (station c9_edit))
            = duration c9_edit"
    and c: "stored_checksum (eeprom (button1 c9_edit)) = checksum (eeprom (button1 c9_edit))"
    by blast+
  have "read_eeprom (eeprom (button1 c9_edit)) 1 3 = 25" using b unfolding f by simp
  then show ?thesis using a c f by blast
qed

subsection \<open>The backwash cycle\<close>

lemma eval_tick_lengths:
  "length (st (eval_tick s)) = STATIONS" "length (remaining (eval_tick s)) = STATIONS"
  unfolding eval_tick_fields using fold_check_prog_lengths by simp_all

lemma eval_tick_outside:
  assumes k: "k < STATIONS" and out: "\<not> (3 \<le> k \<and> k < 13)"
  shows "st (eval_tick s) ! k = 0"
proof (rule ccontr)
  let ?acc = "(replicate STATIONS 0 :: u8 list, replicate STATIONS 0 :: u32 list, station_active s)"
  assume "st (eval_tick s) ! k \<noteq> 0"
  then have nz: "fst (fold (check_prog (eeprom (eval_tick s)) (station s) (ct s)) [1..<9] ?acc) ! k \<noteq> 0"
    unfolding eval_tick_fields .
  have len: "k < length (fst ?acc)" using k by simp
  from fold_check_prog_origin[OF len nz]
  obtain q r where "active_station (eeprom (eval_tick s)) q (ct s) = Some (k, r)"
    using k by auto
  then have "3 \<le> k \<and> k < 13" by (rule active_station_range)
  then show False using out by simp
qed

lemma fold_check_prog_flag:
  assumes "snd (snd (fold (check_prog e sel c) qs acc))"
  shows "snd (snd acc)
         \<or> (\<exists>q \<in> set qs. (sel = 0 \<or> sel = of_nat q) \<and> (\<exists>j r. active_station e q c = Some (j, r)))"
  using assms
proof (induction qs arbitrary: acc)
  case Nil
  then show ?case by simp
next
  case (Cons q qs)
  then have "snd (snd (fold (check_prog e sel c) qs (check_prog e sel c q acc)))" by simp
  from Cons.IH[OF this]
  show ?case
  proof
    assume f: "snd (snd (check_prog e sel c q acc))"
    show ?thesis
    proof (cases "(sel = 0 \<or> sel = of_nat q) \<and> active_station e q c \<noteq> None")
      case True
      then show ?thesis by auto
    next
      case False
      then have "check_prog e sel c q acc = acc"
        by (auto simp add: check_prog_def split: option.splits)
      then show ?thesis using f by simp
    qed
  next
    assume "\<exists>q \<in> set qs. (sel = 0 \<or> sel = of_nat q) \<and> (\<exists>j r. active_station e q c = Some (j, r))"
    then show ?thesis by auto
  qed
qed

lemma station_active_iff:
  assumes off: "\<not> station_active s"
  shows "station_active (eval_tick s) \<longleftrightarrow> (\<exists>j. 3 \<le> j \<and> j < 13 \<and> st (eval_tick s) ! j \<noteq> 0)"
proof
  let ?e = "eeprom (eval_tick s)"
  let ?acc = "(replicate STATIONS 0 :: u8 list, replicate STATIONS 0 :: u32 list, station_active s)"
  let ?f = "fold (check_prog ?e (station s) (ct s)) [1..<9] ?acc"
  {
    assume "station_active (eval_tick s)"
    then have "snd (snd ?f)" unfolding eval_tick_fields .
    from fold_check_prog_flag[OF this] off
    obtain q j r where q: "q \<in> set [1..<9]" "station s = 0 \<or> station s = of_nat q"
      "active_station ?e q (ct s) = Some (j, r)" by auto
    have j: "3 \<le> j \<and> j < 13" using q(3) by (rule active_station_range)
    have "marked j r ?f" using q by (rule fold_check_prog_marks) (use j in simp_all)
    then have "st (eval_tick s) ! j = 1" by (simp add: marked_def eval_tick_fields del: upt_rec_numeral)
    then show "\<exists>j. 3 \<le> j \<and> j < 13 \<and> st (eval_tick s) ! j \<noteq> 0" using j by auto
  }
  {
    assume "\<exists>j. 3 \<le> j \<and> j < 13 \<and> st (eval_tick s) ! j \<noteq> 0"
    then obtain j where j: "3 \<le> j" "j < 13" "st (eval_tick s) ! j \<noteq> 0" by blast
    have nz: "fst ?f ! j \<noteq> 0" using j(3) unfolding eval_tick_fields .
    have len: "j < length (fst ?acc)" using j by simp
    from fold_check_prog_origin[OF len nz]
    obtain q r where q: "q \<in> set [1..<9]" "station s = 0 \<or> station s = of_nat q"
      "active_station ?e q (ct s) = Some (j, r)" using j by auto
    have "marked j r ?f" using q by (rule fold_check_prog_marks) (use j in simp_all)
    then show "station_active (eval_tick s)" by (simp add: marked_def eval_tick_fields del: upt_rec_numeral)
  }
qed

lemma bw_loop_stop: "\<not> (pt \<le> c \<and> s < 3) \<Longrightarrow> bw_loop e c pt s = (pt, s)"
  by (subst bw_loop.simps) auto

lemma bw_loop_bound: "s \<le> 3 \<Longrightarrow> snd (bw_loop e c pt s) \<le> 3"
proof (induction "3 - s" arbitrary: s pt)
  case 0
  then show ?case by (simp add: bw_loop_stop)
next
  case (Suc n)
  show ?case
  proof (cases "pt \<le> c \<and> s < 3")
    case False
    then show ?thesis using Suc.prems by (simp add: bw_loop_stop)
  next
    case True
    have n: "n = 3 - Suc s" using Suc.hyps(2) by simp
    have s: "Suc s \<le> 3" using True by simp
    show ?thesis
      by (subst bw_loop.simps) (use True Suc.hyps(1)[OF n s] in simp)
  qed
qed

lemma backwash_st:
  assumes "backwash s = Inr s'"
  shows "st s' = st s \<or> (\<exists>k \<in> {1, 2, 13}. st s' = (st s)[k := 1])"
proof (cases "backwash_delay s \<noteq> 0")
  case True
  then show ?thesis using assms by (auto simp add: backwash_def)
next
  case False
  let ?r = "bw_loop (eeprom s) (ct s) (bt s) 0"
  have b: "snd ?r \<le> 3" by (rule bw_loop_bound) simp
  have n0: "snd ?r \<noteq> 0" using assms False by (auto simp add: backwash_def Let_def split: if_splits)
  have "bws ! (snd ?r - 1) \<in> {1, 2, 13}"
  proof -
    have "snd ?r = 1 \<or> snd ?r = 2 \<or> snd ?r = 3" using b n0 by linarith
    then show ?thesis by (auto simp add: bws_def)
  qed
  then show ?thesis using assms False n0
    by (auto simp add: backwash_def Let_def split: if_splits)
qed

lemma backwash_other:
  assumes "backwash s = Inr s'"
  shows "run_mode s' = run_mode s" "prog s' = prog s" "eeprom s' = eeprom s"
  using assms by (auto simp add: backwash_def Let_def split: if_splits)

lemma set_relays_fields:
  "st (set_relays s) = st s" "run_mode (set_relays s) = run_mode s" "prog (set_relays s) = prog s"
  "bt (set_relays s) = bt s" "eeprom (set_relays s) = eeprom s"
  by (simp_all add: set_relays_def)

lemma stop_runmode_fields:
  "st (stop_runmode s) = st s" "\<not> run_mode (stop_runmode s)" "prog (stop_runmode s) = prog s"
  "bt (stop_runmode s) = bt s" "eeprom (stop_runmode s) = (eeprom s)(STATUS := 0)"
  "relays (stop_runmode s) = 0"
  by (simp_all add: stop_runmode_def relays_off_def)

lemma at_most_one_backwash:
  assumes z: "xs ! 1 = (0::u8)" "xs ! 2 = 0" "xs ! 13 = 0" and len: "length xs = STATIONS"
    and ys: "ys = xs \<or> (\<exists>k \<in> {1, 2, 13}. ys = xs[k := 1])"
  shows "card {j \<in> {1, 2, 13}. ys ! j \<noteq> 0} \<le> 1"
  using ys
proof
  assume "ys = xs"
  then have "{j \<in> {1, 2, 13}. ys ! j \<noteq> 0} = {}" using z by auto
  then have "card {j \<in> {1, 2, 13}. ys ! j \<noteq> 0} = card ({} :: nat set)" by (simp only:)
  then show ?thesis by (simp only: card.empty)
next
  assume "\<exists>k \<in> {1, 2, 13}. ys = xs[k := 1]"
  then obtain k where k: "k \<in> {1, 2, 13}" "ys = xs[k := 1]" by blast
  have sub: "{j \<in> {1, 2, 13}. ys ! j \<noteq> 0} \<subseteq> {k}"
    using z k len by (auto simp add: nth_list_update)
  have c: "card {j \<in> {1, 2, 13}. ys ! j \<noteq> 0} \<le> card {k}"
    using sub by (rule card_mono[rotated]) simp
  have "card {k} = 1" by simp
  with c show ?thesis by linarith
qed

lemma run_section_evaluated:
  assumes "run_mode s" "elapsed s now \<le> 24 * 60" "lt s \<noteq> elapsed s now"
  shows "run_section s now = run_tick (s\<lparr>station_active := False, ct := elapsed s now\<rparr>)"
proof -
  have e: "elapsed (s\<lparr>station_active := False\<rparr>) now = elapsed s now" by (simp add: elapsed_def)
  have "\<not> 24 * 60 < elapsed s now" using assms(2) by (simp add: not_less)
  then show ?thesis using assms(1,3) by (simp add: run_section_def begin_run_def Let_def e)
qed

text \<open>
  Claim C6. On every evaluated tick (running, \<open>ct\<close> not above the ceiling and
  different from \<open>lt\<close>): the activity flag is set exactly when some irrigation
  station 3..12 is on; if none is on, the tick completes with none of the backwash
  stations 1, 2, 13 on and with the backwash clock \<open>bt\<close> unchanged (and the run
  stopped); and whenever the tick completes, at most one of the stations 1, 2, 13 is on.
  A tick on which the sketch indexes \<open>bws[-1]\<close> has no resulting state and is not
  covered.
\<close>

theorem backwash_gated:
  assumes run: "run_mode s" and below: "elapsed s now \<le> 24 * 60" and changed: "lt s \<noteq> elapsed s now"
  shows "run_section s now = run_tick (s\<lparr>station_active := False, ct := elapsed s now\<rparr>)
     \<and> (station_active (eval_tick (s\<lparr>station_active := False, ct := elapsed s now\<rparr>))
          \<longleftrightarrow> (\<exists>j. 3 \<le> j \<and> j < 13
                    \<and> st (eval_tick (s\<lparr>station_active := False, ct := elapsed s now\<rparr>)) ! j \<noteq> 0))
     \<and> (\<not> station_active (eval_tick (s\<lparr>station_active := False, ct := elapsed s now\<rparr>)) \<longrightarrow>
           (\<exists>s'. run_section s now = Inr s' \<and> st s' ! 1 = 0 \<and> st s' ! 2 = 0 \<and> st s' ! 13 = 0
                  \<and> bt s' = bt s \<and> \<not> run_mode s'))
     \<and> (\<forall>s'. run_section s now = Inr s' \<longrightarrow> card {j \<in> {1, 2, 13}. st s' ! j \<noteq> 0} \<le> 1)"
proof -
  let ?s0 = "s\<lparr>station_active := False, ct := elapsed s now\<rparr>"
  let ?s3 = "eval_tick ?s0"
  have rs: "run_section s now = run_tick ?s0" using assms by (rule run_section_evaluated)
  have flag: "station_active ?s3 \<longleftrightarrow> (\<exists>j. 3 \<le> j \<and> j < 13 \<and> st ?s3 ! j \<noteq> 0)"
    by (rule station_active_iff) simp
  have z: "st ?s3 ! 1 = 0" "st ?s3 ! 2 = 0" "st ?s3 ! 13 = 0"
    by (rule eval_tick_outside; simp)+
  have idle: "\<exists>s'. run_section s now = Inr s' \<and> st s' ! 1 = 0 \<and> st s' ! 2 = 0 \<and> st s' ! 13 = 0
                  \<and> bt s' = bt s \<and> \<not> run_mode s'"
    if "\<not> station_active ?s3"
  proof -
    have "run_section s now = Inr (stop_runmode ?s3)"
      unfolding rs using that by (simp add: run_tick_def Let_def)
    then show ?thesis using z by (simp add: stop_runmode_fields eval_tick_other)
  qed
  have one: "card {j \<in> {1, 2, 13}. st s' ! j \<noteq> 0} \<le> 1" if r: "run_section s now = Inr s'" for s'
  proof (cases "station_active ?s3")
    case False
    then have "s' = stop_runmode ?s3" using r unfolding rs by (simp add: run_tick_def Let_def)
    then have "st s' = st ?s3" by (simp add: stop_runmode_fields)
    then show ?thesis
      using at_most_one_backwash[OF z eval_tick_lengths(1), of "st s'"] by simp
  next
    case True
    then obtain s4 where s4: "backwash ?s3 = Inr s4" "s' = set_relays s4"
      using r unfolding rs by (auto simp add: run_tick_def Let_def split: sum.splits)
    have "st s' = st s4" using s4(2) by (simp add: set_relays_fields)
    then have "st s' = st ?s3 \<or> (\<exists>k \<in> {1, 2, 13}. st s' = (st ?s3)[k := 1])"
      using backwash_st[OF s4(1)] by simp
    then show ?thesis by (rule at_most_one_backwash[OF z eval_tick_lengths(1)])
  qed
  show ?thesis using rs flag idle one by blast
qed

theorem backwash_gated_witness:
  "run_mode c9_boot \<and> elapsed c9_boot 360000 = 66 \<and> lt c9_boot = 60
   \<and> run_section c9_boot 360000 = Inr c9_state
   \<and> \<not> station_active c9_state
   \<and> st c9_state ! 1 = 0 \<and> st c9_state ! 2 = 0 \<and> st c9_state ! 13 = 0
   \<and> bt c9_state = bt c9_boot
   \<and> card {j \<in> {1, 2, 13}. st c9_state ! j \<noteq> 0} \<le> 1"
proof -
  have r: "run_mode c9_boot" by (simp add: c9_boot_fields)
  have e: "elapsed c9_boot 360000 = 66" by (simp add: elapsed_def c9_boot_fields)
  have l: "lt c9_boot = 60" by (simp add: c9_boot_fields)
  have below: "elapsed c9_boot 360000 \<le> 24 * 60" unfolding e by simp
  have changed: "lt c9_boot \<noteq> elapsed c9_boot 360000" unfolding e l by simp
  from backwash_gated[OF r below changed] c9_run
  have "card {j \<in> {1, 2, 13}. st c9_state ! j \<noteq> 0} \<le> 1" by blast
  moreover have "\<not> station_active c9_state" "st c9_state ! 1 = 0" "st c9_state ! 2 = 0"
    "st c9_state ! 13 = 0" "bt c9_state = bt c9_boot"
    by (simp_all add: c9_state_eq)
  ultimately show ?thesis using r e l c9_run by blast
qed

text \<open>
  The fault of the backwash block is reachable: after a resumed run has consumed the
  start-up delay (\<open>bt = ct + 1 = 1436\<close>), the fast-mode button rebases the elapsed
  time to a multiple of six below it, and the next pass evaluates a tick with
  \<open>bt > ct\<close>.
\<close>

lemma c6_begin: "begin_run c2_state 60000 = c2_state\<lparr>station_active := False, ct := 1435\<rparr>"
proof -
  have "elapsed (c2_state\<lparr>station_active := False\<rparr>) 60000 = 1435"
    by (simp add: elapsed_def c2_state_fields)
  then show ?thesis by (simp add: begin_run_def Let_def)
qed

lemma c6_table:
  "read_eeprom (c2_eeprom(LAST_TIME_BASE := 239)) (Suc 0) 3 = 80"
  "read_eeprom (c2_eeprom(LAST_TIME_BASE := 239)) (Suc 0) 4 = 80"
  "read_eeprom (c2_eeprom(LAST_TIME_BASE := 239)) (Suc 0) 5 = 80"
  by (simp_all add: read_eeprom_def c2_eeprom_def update_checksum_other)

lemma c6_active:
  "active_station (c2_eeprom(LAST_TIME_BASE := 239)) (Suc 0) 1435 = Some (5, 5)"
  "active_station (c2_eeprom(LAST_TIME_BASE := 239)) (Suc 0) 1434 = Some (5, 6)"
  by (simp_all add: active_station_def Let_def walk_loop.simps c6_table)

lemma c6_single:
  "fold (check_prog (c2_eeprom(LAST_TIME_BASE := 239)) 1 c) [Suc 0..<9] acc
     = check_prog (c2_eeprom(LAST_TIME_BASE := 239)) 1 c (Suc 0) acc"
proof -
  have "fold (check_prog (c2_eeprom(LAST_TIME_BASE := 239)) 1 c) [1..<9] acc
        = check_prog (c2_eeprom(LAST_TIME_BASE := 239)) 1 c 1 acc"
    by (rule fold_check_prog_single) simp_all
  then show ?thesis by (simp del: upt_rec_numeral)
qed

lemma c6_eval:
  "eval_tick (c2_state\<lparr>station_active := False, ct := 1435\<rparr>) =
     c2_state\<lparr>station_active := True, ct := 1435, lt := 1435,
               eeprom := c2_eeprom(LAST_TIME_BASE := 239),
               st := (replicate STATIONS 0)[5 := 1],
               remaining := (replicate STATIONS 0)[5 := 5]\<rparr>"
  unfolding eval_tick_def eval_programs_def Let_def
  by (simp add: c2_state_fields c2_cells c6_single check_prog_def c6_active del: upt_rec_numeral)

lemma c6_first_run:
  "run_section c2_state 60000 =
     Inr (set_relays (c2_state\<lparr>station_active := True, ct := 1435, lt := 1435,
               eeprom := c2_eeprom(LAST_TIME_BASE := 239),
               st := (replicate STATIONS 0)[5 := 1],
               remaining := (replicate STATIONS 0)[5 := 5],
               bt := 1436, backwash_delay := 0\<rparr>))"
  unfolding run_section_def c6_begin Let_def run_tick_def c6_eval
  by (simp add: c2_state_fields backwash_def)

lemma c6_toggled_fields:
  "run_mode c6_toggled" "fast_mode c6_toggled" "last_time c6_toggled = 239"
  "start_time c6_toggled = 60000" "lt c6_toggled = 1435" "bt c6_toggled = 1436"
  "backwash_delay c6_toggled = 0" "station c6_toggled = 1"
  "eeprom c6_toggled = c2_eeprom(LAST_TIME_BASE := 239)"
  by (simp_all add: c6_toggled_def c6_first_def c6_first_run button8_def Let_def set_relays_def
        c2_state_fields)

lemma c6_begin2: "begin_run c6_toggled 60000 = c6_toggled\<lparr>station_active := False, ct := 1434\<rparr>"
proof -
  have "elapsed (c6_toggled\<lparr>station_active := False\<rparr>) 60000 = 1434"
    by (simp add: elapsed_def c6_toggled_fields)
  then show ?thesis by (simp add: begin_run_def Let_def)
qed

lemma c6_eval2:
  "eval_tick (c6_toggled\<lparr>station_active := False, ct := 1434\<rparr>) =
     c6_toggled\<lparr>station_active := True, ct := 1434, lt := 1434,
               eeprom := c2_eeprom(LAST_TIME_BASE := 239),
               st := (replicate STATIONS 0)[5 := 1],
               remaining := (replicate STATIONS 0)[5 := 6]\<rparr>"
  unfolding eval_tick_def eval_programs_def Let_def
  by (simp add: c6_toggled_fields c2_cells c6_single check_prog_def c6_active del: upt_rec_numeral)

lemma bws_fault_reachable:
  "reachable c6_toggled \<and> run_section c6_toggled 60000 = Inl BwsIndexOutOfRange"
proof -
  have "reachable c2_state" unfolding c2_state_def by (rule reachable.boot)
  moreover have "run_section c2_state 60000 = Inr c6_first"
    by (simp add: c6_first_def c6_first_run)
  ultimately have "reachable c6_first" by (rule reachable.run)
  then have r: "reachable c6_toggled" unfolding c6_toggled_def by (rule reachable.press8)
  have w: "bw_loop (c2_eeprom(LAST_TIME_BASE := 239)) 1434 1436 0 = (1436, 0)"
    by (rule bw_loop_stop) simp
  have "run_section c6_toggled 60000 = Inl BwsIndexOutOfRange"
    unfolding run_section_def c6_begin2 Let_def run_tick_def c6_eval2
    by (simp add: c6_toggled_fields backwash_def w)
  then show ?thesis using r by simp
qed

subsection \<open>Editing only while stopped\<close>

lemma run_tick_fields:
  assumes "run_tick s = Inr s'"
  shows "prog s' = prog s" "run_mode s' \<longrightarrow> run_mode s"
proof -
  show "prog s' = prog s"
  proof (cases "station_active (eval_tick s)")
    case False
    then have "s' = stop_runmode (eval_tick s)" using assms by (simp add: run_tick_def Let_def)
    then show ?thesis by (simp add: stop_runmode_fields eval_tick_other)
  next
    case True
    then obtain s4 where s4: "backwash (eval_tick s) = Inr s4" "s' = set_relays s4"
      using assms by (auto simp add: run_tick_def Let_def split: sum.splits)
    show ?thesis using s4 backwash_other[OF s4(1)] by (simp add: set_relays_fields eval_tick_other)
  qed
  show "run_mode s' \<longrightarrow> run_mode s"
  proof (cases "station_active (eval_tick s)")
    case False
    then have "s' = stop_runmode (eval_tick s)" using assms by (simp add: run_tick_def Let_def)
    then show ?thesis by (simp add: stop_runmode_fields)
  next
    case True
    then obtain s4 where s4: "backwash (eval_tick s) = Inr s4" "s' = set_relays s4"
      using assms by (auto simp add: run_tick_def Let_def split: sum.splits)
    show ?thesis using s4 backwash_other[OF s4(1)] by (simp add: set_relays_fields eval_tick_other)
  qed
qed

lemma begin_run_fields:
  "prog (begin_run s now) = prog s" "run_mode (begin_run s now) \<longrightarrow> run_mode s"
  by (simp_all add: begin_run_def Let_def stop_runmode_def relays_off_def)

lemma run_section_locked:
  assumes "run_section s now = Inr s'" "edit_locked s"
  shows "edit_locked s'"
proof (cases "run_mode s")
  case False
  then show ?thesis using assms by (simp add: run_section_def)
next
  case True
  then have p: "prog s = 0" using assms(2) by (simp add: edit_locked_def)
  show ?thesis
  proof (cases "lt (begin_run s now) \<noteq> ct (begin_run s now)")
    case False
    then have "s' = begin_run s now" using assms(1) True by (simp add: run_section_def Let_def)
    then show ?thesis using p by (simp add: edit_locked_def begin_run_fields)
  next
    case c: True
    then have "run_tick (begin_run s now) = Inr s'"
      using assms(1) True by (simp add: run_section_def Let_def)
    from run_tick_fields(1)[OF this] show ?thesis
      using p by (simp add: edit_locked_def begin_run_fields)
  qed
qed

lemma start_runmode_locked: "prog s = 0 \<Longrightarrow> edit_locked (start_runmode s now)"
  by (simp add: edit_locked_def start_runmode_def Let_def)

lemma button8_locked: "edit_locked s \<Longrightarrow> edit_locked (button8 s now)"
  by (simp add: edit_locked_def button8_def Let_def)

lemma button1_locked: "edit_locked s \<Longrightarrow> edit_locked (button1 s)"
  by (auto simp add: edit_locked_def button1_def Let_def stop_runmode_def relays_off_def)

lemma button2_locked: "edit_locked s \<Longrightarrow> edit_locked (button2 s)"
  by (auto simp add: edit_locked_def button2_def Let_def)

lemma button3_locked: "edit_locked s \<Longrightarrow> edit_locked (button3 s now)"
  by (auto simp add: edit_locked_def button3_def Let_def start_runmode_def)

lemma button4_locked: "edit_locked s \<Longrightarrow> edit_locked (button4 s)"
  by (auto simp add: edit_locked_def button4_def Let_def stop_runmode_def relays_off_def)

lemma setup_boot_locked: "edit_locked (setup_boot e now pins)"
  by (simp add: edit_locked_def setup_boot_def restore_run_fields power_on_def)

lemma reachable_locked: "reachable s \<Longrightarrow> edit_locked s"
proof (induction rule: reachable.induct)
  case (boot e now pins)
  show ?case by (rule setup_boot_locked)
next
  case (run s now s')
  then show ?case using run_section_locked by blast
next
  case (wait s d)
  then show ?case by (simp add: edit_locked_def)
next
  case (level s la lb lc ld lh)
  then show ?case by (simp add: edit_locked_def)
next
  case (press8 s now)
  then show ?case by (simp add: button8_locked)
next
  case (press1 s)
  then show ?case by (simp add: button1_locked)
next
  case (press2 s)
  then show ?case by (simp add: button2_locked)
next
  case (press3 s now)
  then show ?case by (simp add: button3_locked)
next
  case (press4 s)
  then show ?case by (simp add: button4_locked)
qed

lemma reachable_level1: "reachable s \<Longrightarrow> reachable (s\<lparr>b1 := l\<rparr>)"
  using reachable.level[where s=s and la=l and lb="b2 s" and lc="b3 s" and ld="b4 s" and lh="b8 s"] by simp

lemma reachable_level2: "reachable s \<Longrightarrow> reachable (s\<lparr>b2 := l\<rparr>)"
  using reachable.level[where s=s and la="b1 s" and lb=l and lc="b3 s" and ld="b4 s" and lh="b8 s"] by simp

lemma reachable_level3: "reachable s \<Longrightarrow> reachable (s\<lparr>b3 := l\<rparr>)"
  using reachable.level[where s=s and la="b1 s" and lb="b2 s" and lc=l and ld="b4 s" and lh="b8 s"] by simp

lemma reachable_level4: "reachable s \<Longrightarrow> reachable (s\<lparr>b4 := l\<rparr>)"
  using reachable.level[where s=s and la="b1 s" and lb="b2 s" and lc="b3 s" and ld=l and lh="b8 s"] by simp

lemma reachable_level8: "reachable s \<Longrightarrow> reachable (s\<lparr>b8 := l\<rparr>)"
  using reachable.level[where s=s and la="b1 s" and lb="b2 s" and lc="b3 s" and ld="b4 s" and lh=l] by simp

lemma reachable_buttons:
  assumes "reachable s"
  shows "reachable (buttons_section s i)"
proof (cases "debounce s \<noteq> 0")
  case True
  then show ?thesis using reachable.wait[OF assms] by (simp add: buttons_section_def)
next
  case False
  let ?s8 = "(if b8 s \<and> \<not> b8new i then button8 s (millis i) else s)\<lparr>b8 := b8new i\<rparr>"
  let ?s1 = "(if b1 ?s8 \<and> \<not> b1new i then button1 ?s8 else ?s8)\<lparr>b1 := b1new i\<rparr>"
  let ?s2 = "(if b2 ?s1 \<and> \<not> b2new i then button2 ?s1 else ?s1)\<lparr>b2 := b2new i\<rparr>"
  let ?s3 = "(if b3 ?s2 \<and> \<not> b3new i then button3 ?s2 (millis i) else ?s2)\<lparr>b3 := b3new i\<rparr>"
  let ?s4 = "(if b4 ?s3 \<and> \<not> b4new i then button4 ?s3 else ?s3)\<lparr>b4 := b4new i\<rparr>"
  have r8: "reachable ?s8"
    by (rule reachable_level8) (simp add: assms reachable.press8)
  have r1: "reachable ?s1"
    by (rule reachable_level1) (simp only: r8 reachable.press1 if_split, simp add: r8 reachable.press1)
  have r2: "reachable ?s2"
    by (rule reachable_level2) (simp only: r1 reachable.press2 if_split, simp add: r1 reachable.press2)
  have r3: "reachable ?s3"
    by (rule reachable_level3) (simp only: r2 reachable.press3 if_split, simp add: r2 reachable.press3)
  have r4: "reachable ?s4"
    by (rule reachable_level4) (simp only: r3 reachable.press4 if_split, simp add: r3 reachable.press4)
  have "buttons_section s i = ?s4"
    using False by (simp only: buttons_section_def Let_def if_False)
  then show ?thesis using r4 by (simp only:)
qed

lemma reachable_loop:
  assumes "reachable s" "loop s i = Inr s'"
  shows "reachable s'"
proof -
  obtain s1 where s1: "run_section s (millis i) = Inr s1" "s' = buttons_section s1 i"
    using assms(2) by (auto simp add: loop_def split: sum.splits)
  have "reachable s1" using assms(1) s1(1) by (rule reachable.run)
  then show ?thesis unfolding s1(2) by (rule reachable_buttons)
qed

text \<open>
  Claim C8. In every reachable state in which the system is running, the program
  cursor is 0, and none of the button handlers changes an entry of the program table:
  the two transitions that call \<open>update_eeprom\<close> (mode and selector with a non-zero
  cursor) cannot be taken while running. By \<open>reachable_loop\<close> the reachable states
  include every state the sketch's \<open>loop()\<close> produces.
\<close>

theorem edits_only_while_stopped:
  assumes "reachable s" and "run_mode s"
  shows "prog s = 0
     \<and> (\<forall>p k. read_eeprom (eeprom (button1 s)) p k = read_eeprom (eeprom s) p k)
     \<and> (\<forall>p k. read_eeprom (eeprom (button2 s)) p k = read_eeprom (eeprom s) p k)
     \<and> (\<forall>p k. read_eeprom (eeprom (button3 s now)) p k = read_eeprom (eeprom s) p k)
     \<and> (\<forall>p k. read_eeprom (eeprom (button4 s)) p k = read_eeprom (eeprom s) p k)
     \<and> (\<forall>p k. read_eeprom (eeprom (button8 s now)) p k = read_eeprom (eeprom s) p k)"
proof -
  have p: "prog s = 0" using reachable_locked[OF assms(1)] assms(2) by (simp add: edit_locked_def)
  show ?thesis
    using p assms(2)
    by (simp add: read_eeprom_def button1_def button2_def button3_def button4_def button8_def
          Let_def stop_runmode_def relays_off_def)
qed

theorem edits_only_while_stopped_witness:
  "reachable c2_state \<and> run_mode c2_state \<and> prog c2_state = 0
   \<and> read_eeprom (eeprom c2_state) 1 3 = 80
   \<and> read_eeprom (eeprom (button1 c2_state)) 1 3 = 80
   \<and> read_eeprom (eeprom (button2 c2_state)) 1 3 = 80"
proof -
  have r: "reachable c2_state" unfolding c2_state_def by (rule reachable.boot)
  have m: "run_mode c2_state" by (simp add: c2_state_fields)
  have c: "read_eeprom (eeprom c2_state) 1 3 = 80"
    by (simp add: c2_state_fields read_eeprom_def c2_eeprom_def update_checksum_other)
  from edits_only_while_stopped[OF r m, of 0]
  show ?thesis using r m c by simp
qed

end
